theory Spec2Isabelle
  imports Complex_Main
begin

section \<open>Board model (types.ts)\<close>

text \<open>
  A cell value is a number in 0..9, 0 meaning empty. A board is an array of rows, each an
  array of cell values. The TypeScript type does not fix the lengths; the documented shape
  is 9 by 9, stated here as the predicate \<open>wf_board\<close>.
\<close>

type_synonym board = "nat list list"

record position =
  row :: nat
  col :: nat

definition BLOCK_SIZE :: nat where
  "BLOCK_SIZE = 3"

definition GRID_SIZE :: nat where
  "GRID_SIZE = 9"

datatype difficulty = Easy | Medium | Hard

text \<open>
  \<open>board[row][col]\<close>. Reading past the end of a JavaScript array gives \<open>undefined\<close>,
  which is strictly equal to no number: that is \<open>None\<close>. (Reading a row that does not
  exist raises a TypeError in JavaScript; a board of the documented shape has all nine rows,
  and the model reads \<open>None\<close> there as well.)
\<close>

definition cellAt :: "board \<Rightarrow> nat \<Rightarrow> nat \<Rightarrow> nat option" where
  "cellAt board r c =
     (if r < length board \<and> c < length (board ! r) then Some (board ! r ! c) else None)"

text \<open>
  \<open>mutable[row][col] = value\<close> on the state-passing model of a mutable board: the updated
  board is returned. Every write of the program goes to a cell that was read before, so the
  extension of an array by a write past its end never happens; the model leaves the board
  as it is there.
\<close>

definition setCell :: "board \<Rightarrow> nat \<Rightarrow> nat \<Rightarrow> nat \<Rightarrow> board" where
  "setCell board r c v = board[r := (board ! r)[c := v]]"

definition createEmptyBoard :: board where
  "createEmptyBoard = replicate GRID_SIZE (replicate GRID_SIZE 0)"

definition cloneBoard :: "board \<Rightarrow> board" where
  "cloneBoard board = map (\<lambda>r. r) board"

definition freezeBoard :: "board \<Rightarrow> board" where
  "freezeBoard board = map (\<lambda>r. r) board"

text \<open>The positions of the grid in the order of the nested row and column loops.\<close>

definition allPositions :: "position list" where
  "allPositions =
     concat (map (\<lambda>r. map (\<lambda>c. \<lparr>row = r, col = c\<rparr>) [0..<GRID_SIZE]) [0..<GRID_SIZE])"

section \<open>Placement validator and solver (solver.ts)\<close>

text \<open>
  The parameters \<open>row\<close>, \<open>col\<close> and \<open>value\<close> of the source are \<open>r\<close>, \<open>c\<close> and \<open>v\<close> here
  (\<open>row\<close> and \<open>col\<close> are the fields of a position).

  The nested loops of \<open>findEmptyCell\<close> return the first position, in row-major order,
  whose cell is 0.
\<close>

definition findEmptyCell :: "board \<Rightarrow> position option" where
  "findEmptyCell board = find (\<lambda>p. cellAt board (row p) (col p) = Some 0) allPositions"

text \<open>
  Each loop of \<open>isValidPlacement\<close> returns false at the first cell, other than
  \<open>(row, col)\<close> itself, that holds the value: it returns false when such a cell exists in
  the range it scans.
\<close>

definition isValidPlacement :: "board \<Rightarrow> nat \<Rightarrow> nat \<Rightarrow> nat \<Rightarrow> bool" where
  "isValidPlacement board r c v =
     (if v = 0 then True
      else if \<exists>c' \<in> set [0..<GRID_SIZE]. c' \<noteq> c \<and> cellAt board r c' = Some v then False
      else if \<exists>r' \<in> set [0..<GRID_SIZE]. r' \<noteq> r \<and> cellAt board r' c = Some v then False
      else
        (let blockRow = (r div BLOCK_SIZE) * BLOCK_SIZE;
             blockCol = (c div BLOCK_SIZE) * BLOCK_SIZE
         in if \<exists>r' \<in> set [blockRow..<blockRow + BLOCK_SIZE].
                 \<exists>c' \<in> set [blockCol..<blockCol + BLOCK_SIZE].
                   (r' \<noteq> r \<or> c' \<noteq> c) \<and> cellAt board r' c' = Some v
            then False else True))"

text \<open>
  \<open>isValidPlacement\<close> called with the value \<open>undefined\<close>, which is what
  \<open>isBoardComplete\<close> and \<open>getConflicts\<close> pass for a cell read past the end of its row. The
  value is not 0, and each loop compares the cells with \<open>undefined\<close>: it returns false at
  the first cell, other than \<open>(row, col)\<close> itself, that reads \<open>undefined\<close> as well.
\<close>

definition isValidPlacement_undefined :: "board \<Rightarrow> nat \<Rightarrow> nat \<Rightarrow> bool" where
  "isValidPlacement_undefined board r c =
     (if \<exists>c' \<in> set [0..<GRID_SIZE]. c' \<noteq> c \<and> cellAt board r c' = None then False
      else if \<exists>r' \<in> set [0..<GRID_SIZE]. r' \<noteq> r \<and> cellAt board r' c = None then False
      else
        (let blockRow = (r div BLOCK_SIZE) * BLOCK_SIZE;
             blockCol = (c div BLOCK_SIZE) * BLOCK_SIZE
         in if \<exists>r' \<in> set [blockRow..<blockRow + BLOCK_SIZE].
                 \<exists>c' \<in> set [blockCol..<blockCol + BLOCK_SIZE].
                   (r' \<noteq> r \<or> c' \<noteq> c) \<and> cellAt board r' c' = None
            then False else True))"

text \<open>
  \<open>isBoardComplete\<close>: no empty cell is found, and in the scan every cell is non-zero and a
  valid placement. A cell read past the end of its row is \<open>undefined\<close>, which is not 0, and
  the scan goes on when \<open>isValidPlacement\<close> returns true for \<open>undefined\<close>.
\<close>

definition isBoardComplete :: "board \<Rightarrow> bool" where
  "isBoardComplete board =
     (case findEmptyCell board of
        Some cell \<Rightarrow> False
      | None \<Rightarrow>
          list_all (\<lambda>p. case cellAt board (row p) (col p) of
                          None \<Rightarrow> isValidPlacement_undefined board (row p) (col p)
                        | Some v \<Rightarrow> v \<noteq> 0 \<and> isValidPlacement board (row p) (col p) v)
            allPositions)"


subsection \<open>Counting the empty cells\<close>

text \<open>
  The number of cells holding 0. It is the quantity that the recursion of the solver, of the
  solution counter and of the grid filler decreases: each recursive call is made on a board
  with one more cell filled.
\<close>

definition emptyCount :: "board \<Rightarrow> nat" where
  "emptyCount m = sum_list (map (\<lambda>r. count_list r 0) m)"

lemma count_list_update:
  "i < length xs \<Longrightarrow>
   count_list (xs[i := v]) a + (if xs ! i = a then 1 else 0)
     = count_list xs a + (if v = a then 1 else 0)"
proof (induction xs arbitrary: i)
  case Nil
  then show ?case by simp
next
  case (Cons x xs)
  show ?case
  proof (cases i)
    case 0
    then show ?thesis by simp
  next
    case (Suc j)
    with Cons.prems have "j < length xs" by simp
    from Cons.IH[OF this] Suc show ?thesis by (auto split: if_splits)
  qed
qed

lemma sum_list_map_update:
  "i < length xs \<Longrightarrow>
   sum_list (map f (xs[i := y])) + f (xs ! i) = sum_list (map f xs) + (f y :: nat)"
  by (induction xs arbitrary: i) (auto simp: nth_Cons split: nat.splits)

lemma setCell_out_of_range:
  "cellAt m r c = None \<Longrightarrow> setCell m r c v = m"
  by (auto simp: cellAt_def setCell_def list_update_beyond not_less split: if_splits)

lemma emptyCount_setCell:
  assumes "cellAt m r c = Some w"
  shows "emptyCount (setCell m r c v) + (if w = 0 then 1 else 0)
           = emptyCount m + (if v = 0 then 1 else 0)"
proof -
  from assms have r: "r < length m" and c: "c < length (m ! r)" and w: "m ! r ! c = w"
    by (auto simp: cellAt_def split: if_splits)
  have "count_list ((m ! r)[c := v]) 0 + (if w = 0 then 1 else 0)
          = count_list (m ! r) 0 + (if v = 0 then 1 else 0)"
    using count_list_update[OF c, of v 0] w by simp
  moreover have "emptyCount (setCell m r c v) + count_list (m ! r) 0
          = emptyCount m + count_list ((m ! r)[c := v]) 0"
    unfolding emptyCount_def setCell_def
    using sum_list_map_update[OF r, of "\<lambda>r. count_list r 0" "(m ! r)[c := v]"] by simp
  ultimately show ?thesis by arith
qed

lemma cellAt_setCell:
  "cellAt (setCell m r c v) r' c' =
     (if r' = r \<and> c' = c \<and> cellAt m r c \<noteq> None then Some v else cellAt m r' c')"
  by (auto simp: cellAt_def setCell_def nth_list_update)

lemma setCell_setCell [simp]: "setCell (setCell m r c v) r c w = setCell m r c w"
  by (cases "r < length m") (simp_all add: setCell_def list_update_beyond not_less)

lemma setCell_same: "cellAt m r c = Some v \<Longrightarrow> setCell m r c v = m"
  by (auto simp: cellAt_def setCell_def list_update_same_conv split: if_splits)

lemma findEmptyCell_Some:
  "findEmptyCell m = Some p \<Longrightarrow> cellAt m (row p) (col p) = Some 0"
  by (auto simp: findEmptyCell_def find_Some_iff)

lemma emptyCount_fill_less:
  "cellAt m r c = Some 0 \<Longrightarrow> v \<noteq> 0 \<Longrightarrow> emptyCount (setCell m r c v) < emptyCount m"
  using emptyCount_setCell[of m r c 0 v] by simp

lemma emptyCount_probe_le:
  "emptyCount (setCell m r c v)
     \<le> emptyCount (setCell m r c (Suc 0)) + (if v = 0 then 1 else 0)"
proof (cases "cellAt m r c")
  case None
  then show ?thesis by (simp add: setCell_out_of_range)
next
  case (Some w)
  from emptyCount_setCell[OF Some, of v] emptyCount_setCell[OF Some, of "Suc 0"]
  show ?thesis by (simp split: if_splits)
qed

subsection \<open>The solver\<close>

text \<open>
  \<open>solveBacktrack\<close> mutates its argument and returns a boolean; the model returns the
  boolean together with the board as the call leaves it. \<open>solveBacktrack_loop\<close> is the
  \<open>for (const value of digits)\<close> loop of the body, at the empty cell \<open>(r, c)\<close>, over the
  digits still to be tried.
\<close>

function solveBacktrack :: "board \<Rightarrow> bool \<times> board"
  and solveBacktrack_loop :: "board \<Rightarrow> nat \<Rightarrow> nat \<Rightarrow> nat list \<Rightarrow> bool \<times> board"
where
  "solveBacktrack m =
     (case findEmptyCell m of
        None \<Rightarrow> (True, m)
      | Some cell \<Rightarrow> solveBacktrack_loop m (row cell) (col cell) [1, 2, 3, 4, 5, 6, 7, 8, 9])"
| "solveBacktrack_loop m r c [] = (False, m)"
| "solveBacktrack_loop m r c (v # vs) =
     (if \<not> isValidPlacement m r c v then solveBacktrack_loop m r c vs
      else
        (case solveBacktrack (setCell m r c v) of
           (True, m') \<Rightarrow> (True, m')
         | (False, m') \<Rightarrow> solveBacktrack_loop (setCell m' r c 0) r c vs))"
  by pat_completeness auto

text \<open>A failed call leaves the board as it found it (wherever the call is defined).\<close>

lemma solveBacktrack_restores_partial:
  "solveBacktrack_solveBacktrack_loop_dom (Inl m) \<Longrightarrow>
     \<not> fst (solveBacktrack m) \<Longrightarrow> snd (solveBacktrack m) = m"
  "solveBacktrack_solveBacktrack_loop_dom (Inr (m, r, c, vs)) \<Longrightarrow>
     \<not> fst (solveBacktrack_loop m r c vs) \<Longrightarrow>
     snd (solveBacktrack_loop m r c vs) = m \<or> snd (solveBacktrack_loop m r c vs) = setCell m r c 0"
proof (induction m and m r c vs rule: solveBacktrack_solveBacktrack_loop.pinduct)
  case (1 m)
  show ?case
  proof (cases "findEmptyCell m")
    case None
    with 1 show ?thesis by (simp add: solveBacktrack.psimps)
  next
    case (Some p)
    from findEmptyCell_Some[OF Some] have "setCell m (row p) (col p) 0 = m"
      by (rule setCell_same)
    with 1 Some show ?thesis by (auto simp: solveBacktrack.psimps)
  qed
next
  case (2 m r c)
  then show ?case by (simp add: solveBacktrack_loop.psimps)
next
  case (3 m r c v vs)
  show ?case
  proof (cases "isValidPlacement m r c v")
    case False
    with 3 show ?thesis by (simp add: solveBacktrack_loop.psimps)
  next
    case True
    obtain ok y where res: "solveBacktrack (setCell m r c v) = (ok, y)"
      by (cases "solveBacktrack (setCell m r c v)")
    show ?thesis
    proof (cases ok)
      case True
      with 3(1,5) \<open>isValidPlacement m r c v\<close> res show ?thesis
        by (simp add: solveBacktrack_loop.psimps)
    next
      case False
      with 3(3) True res have y: "y = setCell m r c v" by simp
      from 3(1) True res False
      have eq: "solveBacktrack_loop m r c (v # vs) = solveBacktrack_loop (setCell m r c 0) r c vs"
        by (simp add: solveBacktrack_loop.psimps y)
      from 3(4)[of ok y] True res False 3(5) eq y
      show ?thesis by auto
    qed
  qed
qed

termination solveBacktrack
proof (relation "measures
    [case_sum emptyCount
       (\<lambda>(m, r, c, vs). emptyCount (setCell m r c (Suc 0)) + (if 0 \<in> set vs then 1 else 0)),
     case_sum (\<lambda>_. 0) (\<lambda>_. 1),
     case_sum (\<lambda>_. 0) (\<lambda>(m, r, c, vs). length vs)]", goal_cases)
  case 1
  then show ?case by simp
next
  case (2 m p)
  then show ?case
    using emptyCount_fill_less[OF findEmptyCell_Some[OF 2], of "Suc 0"] by simp
next
  case (3 m r c v vs)
  then show ?case by auto
next
  case (4 m r c v vs)
  then show ?case using emptyCount_probe_le[of m r c v] by (auto split: if_splits)
next
  case (5 m r c v vs ok y)
  from solveBacktrack_restores_partial(1)[OF 5(4)] 5(2,3) have "y = setCell m r c v"
    by (metis fst_conv snd_conv)
  then show ?case by auto
qed

definition solve :: "board \<Rightarrow> board option" where
  "solve board =
     (let mutable = cloneBoard board
      in case solveBacktrack mutable of (True, m) \<Rightarrow> Some m | (False, m) \<Rightarrow> None)"

subsection \<open>The solution counter\<close>

text \<open>
  \<open>countBacktrack\<close> is the closure inside \<open>countSolutions\<close>: it reads \<open>limit\<close>, and reads
  and writes \<open>count\<close>, both passed here explicitly, and mutates the board. It returns the
  new count and the board as the call leaves it; when it stops because the limit is reached
  the cells filled on the way stay filled.
\<close>

function countBacktrack :: "int \<Rightarrow> int \<Rightarrow> board \<Rightarrow> int \<times> board"
  and countBacktrack_loop :: "int \<Rightarrow> int \<Rightarrow> board \<Rightarrow> nat \<Rightarrow> nat \<Rightarrow> nat list \<Rightarrow> int \<times> board"
where
  "countBacktrack limit count m =
     (if count \<ge> limit then (count, m)
      else
        (case findEmptyCell m of
           None \<Rightarrow> (count + 1, m)
         | Some cell \<Rightarrow>
             countBacktrack_loop limit count m (row cell) (col cell) [1, 2, 3, 4, 5, 6, 7, 8, 9]))"
| "countBacktrack_loop limit count m r c [] = (count, m)"
| "countBacktrack_loop limit count m r c (v # vs) =
     (if \<not> isValidPlacement m r c v then countBacktrack_loop limit count m r c vs
      else
        (case countBacktrack limit count (setCell m r c v) of
           (count', m') \<Rightarrow>
             if count' \<ge> limit then (count', m')
             else countBacktrack_loop limit count' (setCell m' r c 0) r c vs))"
  by pat_completeness auto

lemma countBacktrack_restores_partial:
  "countBacktrack_countBacktrack_loop_dom (Inl (limit, count, m)) \<Longrightarrow>
     fst (countBacktrack limit count m) < limit \<Longrightarrow> snd (countBacktrack limit count m) = m"
  "countBacktrack_countBacktrack_loop_dom (Inr (limit, count, m, r, c, vs)) \<Longrightarrow>
     fst (countBacktrack_loop limit count m r c vs) < limit \<Longrightarrow>
     snd (countBacktrack_loop limit count m r c vs) = m
       \<or> snd (countBacktrack_loop limit count m r c vs) = setCell m r c 0"
proof (induction limit count m and limit count m r c vs
       rule: countBacktrack_countBacktrack_loop.pinduct)
  case (1 limit count m)
  show ?case
  proof (cases "findEmptyCell m")
    case None
    with 1 show ?thesis by (simp add: countBacktrack.psimps)
  next
    case (Some p)
    from findEmptyCell_Some[OF Some] have "setCell m (row p) (col p) 0 = m"
      by (rule setCell_same)
    with 1 Some show ?thesis by (auto simp: countBacktrack.psimps split: if_splits)
  qed
next
  case (2 limit count m r c)
  then show ?case by (simp add: countBacktrack_loop.psimps)
next
  case (3 limit count m r c v vs)
  show ?case
  proof (cases "isValidPlacement m r c v")
    case False
    with 3 show ?thesis by (simp add: countBacktrack_loop.psimps)
  next
    case True
    obtain k y where res: "countBacktrack limit count (setCell m r c v) = (k, y)"
      by (cases "countBacktrack limit count (setCell m r c v)")
    show ?thesis
    proof (cases "k \<ge> limit")
      case True
      with 3(1,5) \<open>isValidPlacement m r c v\<close> res show ?thesis
        by (simp add: countBacktrack_loop.psimps)
    next
      case False
      with 3(3) True res have y: "y = setCell m r c v" by simp
      from 3(1) True res False
      have eq: "countBacktrack_loop limit count m r c (v # vs)
                  = countBacktrack_loop limit k (setCell m r c 0) r c vs"
        by (simp add: countBacktrack_loop.psimps y)
      from 3(4)[of k y] True res False 3(5) eq y
      show ?thesis by auto
    qed
  qed
qed

termination countBacktrack
proof (relation "measures
    [case_sum (\<lambda>(limit, count, m). emptyCount m)
       (\<lambda>(limit, count, m, r, c, vs).
          emptyCount (setCell m r c (Suc 0)) + (if 0 \<in> set vs then 1 else 0)),
     case_sum (\<lambda>_. 0) (\<lambda>_. 1),
     case_sum (\<lambda>_. 0) (\<lambda>(limit, count, m, r, c, vs). length vs)]", goal_cases)
  case 1
  then show ?case by simp
next
  case (2 limit count m p)
  then show ?case
    using emptyCount_fill_less[OF findEmptyCell_Some[OF 2(2)], of "Suc 0"] by simp
next
  case (3 limit count m r c v vs)
  then show ?case by auto
next
  case (4 limit count m r c v vs)
  then show ?case using emptyCount_probe_le[of m r c v] by (auto split: if_splits)
next
  case (5 limit count m r c v vs k y)
  from countBacktrack_restores_partial(1)[OF 5(4)] 5(2,3) have "y = setCell m r c v"
    by (metis fst_conv snd_conv not_le)
  then show ?case by auto
qed

definition countSolutions :: "board \<Rightarrow> int \<Rightarrow> int" where
  "countSolutions board limit =
     (let mutable = cloneBoard board in fst (countBacktrack limit 0 mutable))"

definition hasUniqueSolution :: "board \<Rightarrow> bool" where
  "hasUniqueSolution board = (countSolutions board 2 = 1)"


section \<open>Validation (validation.ts)\<close>

text \<open>
  The argument of \<open>isValidBoardShape\<close> has type \<open>unknown\<close>: any JavaScript value. Finite
  numbers are rationals here (every finite double is one), and the three other values of
  type number are constructors of their own.
\<close>

datatype jsvalue =
    JUndefined
  | JNull
  | JBoolean bool
  | JNumber rat
  | JNaN
  | JPosInfinity
  | JNegInfinity
  | JString string
  | JObject "(string \<times> jsvalue) list"
  | JArray "jsvalue list"

text \<open>
  \<open>typeof cell !== 'number' || cell < 0 || cell > 9\<close>, negated: the cell passes. Every
  comparison with NaN is false, so NaN passes.
\<close>

fun cellPasses :: "jsvalue \<Rightarrow> bool" where
  "cellPasses (JNumber x) = (\<not> (x < 0 \<or> x > 9))"
| "cellPasses JNaN = True"
| "cellPasses JPosInfinity = False"
| "cellPasses JNegInfinity = False"
| "cellPasses _ = False"

fun rowPasses :: "jsvalue \<Rightarrow> bool" where
  "rowPasses (JArray cells) = (length cells = GRID_SIZE \<and> list_all cellPasses cells)"
| "rowPasses _ = False"

fun isValidBoardShape :: "jsvalue \<Rightarrow> bool" where
  "isValidBoardShape (JArray rows) = (length rows = GRID_SIZE \<and> list_all rowPasses rows)"
| "isValidBoardShape _ = False"

text \<open>
  \<open>getConflicts\<close> pushes, in the order of the nested loops, each position whose cell is
  not 0 and is not a valid placement. A cell read past the end of its row is \<open>undefined\<close>,
  which is not 0, and the position is pushed when \<open>isValidPlacement\<close> returns false for
  \<open>undefined\<close>. (On a board with fewer than nine rows the code raises a TypeError at the
  first missing row; the model reads its cells as \<open>undefined\<close>.)
\<close>

definition getConflicts :: "board \<Rightarrow> position list" where
  "getConflicts board =
     filter (\<lambda>p. case cellAt board (row p) (col p) of
                   None \<Rightarrow> \<not> isValidPlacement_undefined board (row p) (col p)
                 | Some v \<Rightarrow> v \<noteq> 0 \<and> \<not> isValidPlacement board (row p) (col p) v)
       allPositions"

definition isValidPartialBoard :: "board \<Rightarrow> bool" where
  "isValidPartialBoard board = (length (getConflicts board) = 0)"

section \<open>Generator (generator.ts)\<close>

text \<open>
  \<open>Math.random()\<close> returns a number in the interval from 0 inclusive to 1 exclusive. The
  generator is a function of the sequence of numbers it will draw, passed explicitly and
  returned advanced. The product in \<open>Math.floor(Math.random() * (i + 1))\<close> is taken
  exactly.
\<close>

typedef random_value = "{x :: rat. 0 \<le> x \<and> x < 1}"
  by (rule exI[of _ 0]) simp

type_synonym random_source = "nat \<Rightarrow> random_value"

definition Math_random :: "random_source \<Rightarrow> rat \<times> random_source" where
  "Math_random g = (Rep_random_value (g 0), \<lambda>n. g (Suc n))"

text \<open>Fisher-Yates: \<open>for (let i = arr.length - 1; i > 0; i--)\<close>, the loop from \<open>i\<close> down.\<close>

fun shuffle_loop :: "nat \<Rightarrow> random_source \<Rightarrow> 'a list \<Rightarrow> random_source \<times> 'a list" where
  "shuffle_loop 0 g arr = (g, arr)"
| "shuffle_loop (Suc k) g arr =
     (let i = Suc k;
          (x, g') = Math_random g;
          j = nat \<lfloor>x * of_nat (i + 1)\<rfloor>
      in shuffle_loop k g' (arr[i := arr ! j, j := arr ! i]))"

definition shuffle :: "random_source \<Rightarrow> 'a list \<Rightarrow> random_source \<times> 'a list" where
  "shuffle g arr = shuffle_loop (length arr - 1) g arr"

fun GIVENS_BY_DIFFICULTY :: "difficulty \<Rightarrow> nat" where
  "GIVENS_BY_DIFFICULTY Easy = 42"
| "GIVENS_BY_DIFFICULTY Medium = 34"
| "GIVENS_BY_DIFFICULTY Hard = 26"

lemma Math_random_range:
  "Math_random g = (x, g') \<Longrightarrow> 0 \<le> x \<and> x < 1"
  using Rep_random_value[of "g 0"] by (auto simp: Math_random_def)

lemma random_index_le:
  assumes "0 \<le> x" "x < (1::rat)"
  shows "nat \<lfloor>x * of_nat (Suc i)\<rfloor> \<le> i"
proof -
  have "x * of_nat (Suc i) < of_nat (Suc i)"
    using assms by (simp add: mult_less_cancel_right2 del: of_nat_Suc)
  then have "\<lfloor>x * of_nat (Suc i)\<rfloor> < int (Suc i)"
    by (simp add: floor_less_iff del: of_nat_Suc)
  then show ?thesis by linarith
qed

lemma shuffle_loop_set:
  "i < length arr \<Longrightarrow> set (snd (shuffle_loop i g arr)) = set arr"
proof (induction i arbitrary: g arr)
  case 0
  then show ?case by simp
next
  case (Suc k)
  obtain x g' where d: "Math_random g = (x, g')" by (cases "Math_random g")
  let ?j = "nat \<lfloor>x * of_nat (Suc (Suc k))\<rfloor>"
  from Math_random_range[OF d] have "?j \<le> Suc k" by (intro random_index_le) auto
  with Suc.prems have j: "?j < length arr" by simp
  let ?arr = "arr[Suc k := arr ! ?j, ?j := arr ! Suc k]"
  have "set ?arr = set arr" using Suc.prems j by (rule set_swap)
  moreover have "set (snd (shuffle_loop k g' ?arr)) = set ?arr"
    using Suc.prems by (intro Suc.IH) simp
  ultimately show ?case using d by (simp add: Let_def)
qed

lemma shuffle_set: "set (snd (shuffle g arr)) = set arr"
proof (cases arr)
  case Nil
  then show ?thesis by (simp add: shuffle_def)
next
  case (Cons a as)
  then show ?thesis by (simp add: shuffle_def shuffle_loop_set)
qed

text \<open>
  \<open>fillCompleteGrid\<close>: the two nested loops skip the filled cells and act at the first
  cell holding 0, where every path returns; that cell is the one \<open>findEmptyCell\<close> finds, and
  when there is none the loops run out and the call returns true.
  \<open>fillCompleteGrid_loop\<close> is the loop over the shuffled digits at that cell.
\<close>

function fillCompleteGrid :: "random_source \<Rightarrow> board \<Rightarrow> bool \<times> random_source \<times> board"
  and fillCompleteGrid_loop ::
    "random_source \<Rightarrow> board \<Rightarrow> nat \<Rightarrow> nat \<Rightarrow> nat list \<Rightarrow> bool \<times> random_source \<times> board"
where
  "fillCompleteGrid g m =
     (case findEmptyCell m of
        None \<Rightarrow> (True, g, m)
      | Some cell \<Rightarrow>
          (case shuffle g [1, 2, 3, 4, 5, 6, 7, 8, 9] of
             (g', digits) \<Rightarrow> fillCompleteGrid_loop g' m (row cell) (col cell) digits))"
| "fillCompleteGrid_loop g m r c [] = (False, g, m)"
| "fillCompleteGrid_loop g m r c (v # vs) =
     (if \<not> isValidPlacement m r c v then fillCompleteGrid_loop g m r c vs
      else
        (case fillCompleteGrid g (setCell m r c v) of
           (True, g', m') \<Rightarrow> (True, g', m')
         | (False, g', m') \<Rightarrow> fillCompleteGrid_loop g' (setCell m' r c 0) r c vs))"
  by pat_completeness auto

lemma fillCompleteGrid_restores_partial:
  "fillCompleteGrid_fillCompleteGrid_loop_dom (Inl (g, m)) \<Longrightarrow>
     \<not> fst (fillCompleteGrid g m) \<Longrightarrow> snd (snd (fillCompleteGrid g m)) = m"
  "fillCompleteGrid_fillCompleteGrid_loop_dom (Inr (g, m, r, c, vs)) \<Longrightarrow>
     \<not> fst (fillCompleteGrid_loop g m r c vs) \<Longrightarrow>
     snd (snd (fillCompleteGrid_loop g m r c vs)) = m
       \<or> snd (snd (fillCompleteGrid_loop g m r c vs)) = setCell m r c 0"
proof (induction g m and g m r c vs rule: fillCompleteGrid_fillCompleteGrid_loop.pinduct)
  case (1 g m)
  show ?case
  proof (cases "findEmptyCell m")
    case None
    with 1 show ?thesis by (simp add: fillCompleteGrid.psimps)
  next
    case (Some p)
    from findEmptyCell_Some[OF Some] have "setCell m (row p) (col p) 0 = m"
      by (rule setCell_same)
    then have same: "setCell m (row p) (col p) 0 = m" .
    obtain g' ds where sh: "shuffle g [1, 2, 3, 4, 5, 6, 7, 8, 9 :: nat] = (g', ds)"
      by (cases "shuffle g [1, 2, 3, 4, 5, 6, 7, 8, 9 :: nat]")
    from 1(1) Some sh
    have eq: "fillCompleteGrid g m = fillCompleteGrid_loop g' m (row p) (col p) ds"
      by (simp add: fillCompleteGrid.psimps)
    from 1(2)[OF Some sh[symmetric]] 1(3) eq same show ?thesis by auto
  qed
next
  case (2 g m r c)
  then show ?case by (simp add: fillCompleteGrid_loop.psimps)
next
  case (3 g m r c v vs)
  show ?case
  proof (cases "isValidPlacement m r c v")
    case False
    with 3 show ?thesis by (simp add: fillCompleteGrid_loop.psimps)
  next
    case True
    obtain ok g' y where res: "fillCompleteGrid g (setCell m r c v) = (ok, g', y)"
      by (cases "fillCompleteGrid g (setCell m r c v)")
    show ?thesis
    proof (cases ok)
      case True
      with 3(1,5) \<open>isValidPlacement m r c v\<close> res show ?thesis
        by (simp add: fillCompleteGrid_loop.psimps)
    next
      case False
      with 3(3) True res have y: "y = setCell m r c v" by simp
      from 3(1) True res False
      have eq: "fillCompleteGrid_loop g m r c (v # vs)
                  = fillCompleteGrid_loop g' (setCell m r c 0) r c vs"
        by (simp add: fillCompleteGrid_loop.psimps y)
      from 3(4)[of ok "(g', y)" g' y] True res False 3(5) eq y
      show ?thesis by auto
    qed
  qed
qed

termination fillCompleteGrid
proof (relation "measures
    [case_sum (\<lambda>(g, m). emptyCount m)
       (\<lambda>(g, m, r, c, vs).
          emptyCount (setCell m r c (Suc 0)) + (if 0 \<in> set vs then 1 else 0)),
     case_sum (\<lambda>_. 0) (\<lambda>_. 1),
     case_sum (\<lambda>_. 0) (\<lambda>(g, m, r, c, vs). length vs)]", goal_cases)
  case 1
  then show ?case by simp
next
  case (2 g m p g' digits)
  from shuffle_set[of g "[1, 2, 3, 4, 5, 6, 7, 8, 9::nat]"] 2(2)[symmetric]
  have "0 \<notin> set digits" by simp
  then show ?case
    using emptyCount_fill_less[OF findEmptyCell_Some[OF 2(1)], of "Suc 0"] by simp
next
  case (3 g m r c v vs)
  then show ?case by auto
next
  case (4 g m r c v vs)
  then show ?case using emptyCount_probe_le[of m r c v] by (auto split: if_splits)
next
  case (5 g m r c v vs ok gy g' y)
  from fillCompleteGrid_restores_partial(1)[OF 5(5)] 5(2,3,4) have "y = setCell m r c v"
    by (metis fst_conv snd_conv)
  then show ?case by auto
qed

definition generateFullGrid :: "random_source \<Rightarrow> random_source \<times> board" where
  "generateFullGrid g =
     (let board = createEmptyBoard
      in case fillCompleteGrid g board of (ok, g', board') \<Rightarrow> (g', board'))"

text \<open>
  The loop of \<open>removeCellsKeepingUniqueSolution\<close> over the shuffled positions; the state is
  the board and \<open>givensCount\<close>. (The positions are those of the 9 by 9 loops; a position
  outside the board would read \<open>undefined\<close>, and the model skips it.)
\<close>

fun removeCells_loop :: "nat \<Rightarrow> position list \<Rightarrow> board \<Rightarrow> nat \<Rightarrow> board \<times> nat" where
  "removeCells_loop targetGivens [] board givensCount = (board, givensCount)"
| "removeCells_loop targetGivens (p # ps) board givensCount =
     (if givensCount \<le> targetGivens then (board, givensCount)
      else
        (case cellAt board (row p) (col p) of
           None \<Rightarrow> removeCells_loop targetGivens ps board givensCount
         | Some v \<Rightarrow>
             (let board1 = setCell board (row p) (col p) 0;
                  solutions = countSolutions board1 2
              in if solutions = 1
                 then removeCells_loop targetGivens ps board1 (givensCount - 1)
                 else removeCells_loop targetGivens ps
                        (setCell board1 (row p) (col p) v) givensCount)))"

definition removeCellsKeepingUniqueSolution ::
    "random_source \<Rightarrow> board \<Rightarrow> nat \<Rightarrow> random_source \<times> board" where
  "removeCellsKeepingUniqueSolution g board targetGivens =
     (case shuffle g allPositions of
        (g', positions) \<Rightarrow>
          (g', fst (removeCells_loop targetGivens positions board (GRID_SIZE * GRID_SIZE))))"

record generated_puzzle =
  puzzle :: board
  solution :: board

definition generatePuzzle :: "random_source \<Rightarrow> difficulty \<Rightarrow> random_source \<times> generated_puzzle" where
  "generatePuzzle g d =
     (case generateFullGrid g of
        (g1, solution0) \<Rightarrow>
          (let puzzle0 = cloneBoard solution0;
               targetGivens = GIVENS_BY_DIFFICULTY d
           in case removeCellsKeepingUniqueSolution g1 puzzle0 targetGivens of
                (g2, puzzle1) \<Rightarrow>
                  (g2, \<lparr>puzzle = freezeBoard puzzle1, solution = freezeBoard solution0\<rparr>)))"


section \<open>solve with the board as an object (solver.ts, types.ts)\<close>

text \<open>
  Whether \<open>solve\<close> changes the board of its caller depends on which arrays the calls share,
  which the state-passing model above cannot say. Here arrays live in a heap, a list of
  objects addressed by position: an array of cell values, or an array of references to
  arrays (a board is a reference to one of these). A new array is allocated at the end.
\<close>

datatype jsarray = Cells "nat list" | Rows "nat list"

type_synonym heap = "jsarray list"

definition lookup :: "heap \<Rightarrow> nat \<Rightarrow> jsarray option" where
  "lookup h a = (if a < length h then Some (h ! a) else None)"

definition alloc :: "heap \<Rightarrow> jsarray \<Rightarrow> nat \<times> heap" where
  "alloc h obj = (length h, h @ [obj])"

text \<open>The cells of the array at an address (none when the address holds no cell array).\<close>

definition cellsAt :: "heap \<Rightarrow> nat \<Rightarrow> nat list" where
  "cellsAt h a = (case lookup h a of Some (Cells cs) \<Rightarrow> cs | _ \<Rightarrow> [])"

text \<open>The board that a reference denotes in a heap: what reading \<open>board[row][col]\<close> sees.\<close>

definition loadBoard :: "heap \<Rightarrow> nat \<Rightarrow> board" where
  "loadBoard h b = (case lookup h b of Some (Rows refs) \<Rightarrow> map (cellsAt h) refs | _ \<Rightarrow> [])"

text \<open>\<open>mutable[row][col] = value\<close>: the row array is updated in place.\<close>

definition writeCell :: "heap \<Rightarrow> nat \<Rightarrow> nat \<Rightarrow> nat \<Rightarrow> nat \<Rightarrow> heap" where
  "writeCell h b r c v =
     (case lookup h b of
        Some (Rows refs) \<Rightarrow>
          if r < length refs
          then (case lookup h (refs ! r) of
                  Some (Cells cs) \<Rightarrow> h[refs ! r := Cells (cs[c := v])]
                | _ \<Rightarrow> h)
          else h
      | _ \<Rightarrow> h)"

text \<open>
  \<open>board.map((row) => [...row])\<close>: each row is copied into a new array, and the copies
  are collected in a new array of rows.
\<close>

fun cloneRows :: "heap \<Rightarrow> nat list \<Rightarrow> nat list \<times> heap" where
  "cloneRows h [] = ([], h)"
| "cloneRows h (a # as) =
     (case alloc h (Cells (cellsAt h a)) of
        (a', h1) \<Rightarrow> (case cloneRows h1 as of (as', h2) \<Rightarrow> (a' # as', h2)))"

definition cloneBoard_heap :: "heap \<Rightarrow> nat \<Rightarrow> nat \<times> heap" where
  "cloneBoard_heap h b =
     (case lookup h b of
        Some (Rows refs) \<Rightarrow> (case cloneRows h refs of (refs', h1) \<Rightarrow> alloc h1 (Rows refs'))
      | _ \<Rightarrow> alloc h (Rows []))"

text \<open>
  \<open>solveBacktrack\<close> on the heap: the same function, reading the board through the
  reference and writing cells in place. The recursion is on the depth of call stack left:
  running out of it (a RangeError in JavaScript) is the result \<open>None\<close>.
\<close>

fun solveBacktrack_heap :: "nat \<Rightarrow> heap \<Rightarrow> nat \<Rightarrow> bool option \<times> heap"
  and solveBacktrack_heap_loop ::
    "nat \<Rightarrow> heap \<Rightarrow> nat \<Rightarrow> nat \<Rightarrow> nat \<Rightarrow> nat list \<Rightarrow> bool option \<times> heap"
where
  "solveBacktrack_heap 0 h m = (None, h)"
| "solveBacktrack_heap (Suc depth) h m =
     (case findEmptyCell (loadBoard h m) of
        None \<Rightarrow> (Some True, h)
      | Some cell \<Rightarrow>
          solveBacktrack_heap_loop depth h m (row cell) (col cell) [1, 2, 3, 4, 5, 6, 7, 8, 9])"
| "solveBacktrack_heap_loop depth h m r c [] = (Some False, h)"
| "solveBacktrack_heap_loop depth h m r c (v # vs) =
     (if \<not> isValidPlacement (loadBoard h m) r c v then solveBacktrack_heap_loop depth h m r c vs
      else
        (case solveBacktrack_heap depth (writeCell h m r c v) m of
           (None, h') \<Rightarrow> (None, h')
         | (Some True, h') \<Rightarrow> (Some True, h')
         | (Some False, h') \<Rightarrow> solveBacktrack_heap_loop depth (writeCell h' m r c 0) m r c vs))"

text \<open>
  \<open>solve\<close>: the result is the reference to the solved copy, or null (\<open>Some None\<close>).
\<close>

definition solve_heap :: "nat \<Rightarrow> heap \<Rightarrow> nat \<Rightarrow> nat option option \<times> heap" where
  "solve_heap depth h board =
     (case cloneBoard_heap h board of
        (mutable, h1) \<Rightarrow>
          (case solveBacktrack_heap depth h1 mutable of
             (None, h2) \<Rightarrow> (None, h2)
           | (Some True, h2) \<Rightarrow> (Some (Some mutable), h2)
           | (Some False, h2) \<Rightarrow> (Some None, h2)))"



text \<open>
  What a run on the board \<open>m\<close>, whose rows are the arrays at \<open>refs\<close>, may change in the heap:
  only those row arrays.
\<close>

definition frame_ok :: "nat list \<Rightarrow> nat \<Rightarrow> heap \<Rightarrow> heap \<Rightarrow> bool" where
  "frame_ok refs m h h' =
     (length h' = length h \<and> lookup h' m = Some (Rows refs)
      \<and> (\<forall>a. a \<notin> set refs \<longrightarrow> h' ! a = h ! a))"

text \<open>
  A board object whose rows are distinct cell arrays, as a fresh clone is. On such an
  object the run on the heap and the state-passing run agree, step by step.
\<close>

definition ok_board :: "heap \<Rightarrow> nat \<Rightarrow> nat list \<Rightarrow> bool" where
  "ok_board h m refs =
     (lookup h m = Some (Rows refs) \<and> distinct refs
      \<and> (\<forall>a \<in> set refs. \<exists>cs. lookup h a = Some (Cells cs)))"

section \<open>Specification-level notions\<close>

text \<open>
  Two cells share a unit when they lie in the same row, the same column or the same 3 by 3
  block.
\<close>

definition sameUnit :: "nat \<Rightarrow> nat \<Rightarrow> nat \<Rightarrow> nat \<Rightarrow> bool" where
  "sameUnit r c r' c' =
     (r' = r \<or> c' = c
      \<or> (r' div BLOCK_SIZE = r div BLOCK_SIZE \<and> c' div BLOCK_SIZE = c div BLOCK_SIZE))"

text \<open>
  The documented shape of a board: nine rows of nine cell values, each in 0..9. A valid
  board has no non-zero value twice in a row, a column or a block; a solved board is valid
  and has no empty cell. A board \<open>s\<close> completes \<open>board\<close> when it agrees with it on every cell
  that \<open>board\<close> has filled.
\<close>

definition wf_board :: "board \<Rightarrow> bool" where
  "wf_board b =
     (length b = GRID_SIZE \<and>
      list_all (\<lambda>cells. length cells = GRID_SIZE \<and> list_all (\<lambda>v. v \<le> 9) cells) b)"

definition valid_board :: "board \<Rightarrow> bool" where
  "valid_board b =
     (\<forall>r \<in> set [0..<GRID_SIZE]. \<forall>c \<in> set [0..<GRID_SIZE].
      \<forall>r' \<in> set [0..<GRID_SIZE]. \<forall>c' \<in> set [0..<GRID_SIZE].
        (r' \<noteq> r \<or> c' \<noteq> c) \<and> sameUnit r c r' c' \<and> cellAt b r c \<noteq> Some 0
          \<longrightarrow> cellAt b r' c' \<noteq> cellAt b r c)"

definition full_board :: "board \<Rightarrow> bool" where
  "full_board b =
     (\<forall>r \<in> set [0..<GRID_SIZE]. \<forall>c \<in> set [0..<GRID_SIZE]. cellAt b r c \<noteq> Some 0)"

definition solved_board :: "board \<Rightarrow> bool" where
  "solved_board b = (wf_board b \<and> full_board b \<and> valid_board b)"

definition completes :: "board \<Rightarrow> board \<Rightarrow> bool" where
  "completes board s =
     (\<forall>r \<in> set [0..<GRID_SIZE]. \<forall>c \<in> set [0..<GRID_SIZE].
        cellAt board r c = Some 0 \<or> cellAt s r c = cellAt board r c)"

definition completions :: "board \<Rightarrow> board set" where
  "completions board = {s. solved_board s \<and> completes board s}"

text \<open>
  Reference boards: the puzzle of the repository's sanity check, its solution, and the
  solution with the 3 of the first row overwritten by a second 5.
\<close>

definition classicPuzzle :: board where
  "classicPuzzle = [[5, 3, 0, 0, 7, 0, 0, 0, 0],
                    [6, 0, 0, 1, 9, 5, 0, 0, 0],
                    [0, 9, 8, 0, 0, 0, 0, 6, 0],
                    [8, 0, 0, 0, 6, 0, 0, 0, 3],
                    [4, 0, 0, 8, 0, 3, 0, 0, 1],
                    [7, 0, 0, 0, 2, 0, 0, 0, 6],
                    [0, 6, 0, 0, 0, 0, 2, 8, 0],
                    [0, 0, 0, 4, 1, 9, 0, 0, 5],
                    [0, 0, 0, 0, 8, 0, 0, 7, 9]]"

definition classicSolution :: board where
  "classicSolution = [[5, 3, 4, 6, 7, 8, 9, 1, 2],
                      [6, 7, 2, 1, 9, 5, 3, 4, 8],
                      [1, 9, 8, 3, 4, 2, 5, 6, 7],
                      [8, 5, 9, 7, 6, 1, 4, 2, 3],
                      [4, 2, 6, 8, 5, 3, 7, 9, 1],
                      [7, 1, 3, 9, 2, 4, 8, 5, 6],
                      [9, 6, 1, 5, 3, 7, 2, 8, 4],
                      [2, 8, 7, 4, 1, 9, 6, 3, 5],
                      [3, 4, 5, 2, 8, 6, 1, 7, 9]]"

definition conflictingFullBoard :: board where
  "conflictingFullBoard = [[5, 5, 4, 6, 7, 8, 9, 1, 2],
                           [6, 7, 2, 1, 9, 5, 3, 4, 8],
                           [1, 9, 8, 3, 4, 2, 5, 6, 7],
                           [8, 5, 9, 7, 6, 1, 4, 2, 3],
                           [4, 2, 6, 8, 5, 3, 7, 9, 1],
                           [7, 1, 3, 9, 2, 4, 8, 5, 6],
                           [9, 6, 1, 5, 3, 7, 2, 8, 4],
                           [2, 8, 7, 4, 1, 9, 6, 3, 5],
                           [3, 4, 5, 2, 8, 6, 1, 7, 9]]"

text \<open>A board with a 5 at row 0, column 0: placing a 5 at row 0, column 2 is rejected.\<close>

definition rowFiveBoard :: board where
  "rowFiveBoard = [[5, 0, 0, 0, 0, 0, 0, 0, 0],
                   [0, 0, 0, 0, 0, 0, 0, 0, 0],
                   [0, 0, 0, 0, 0, 0, 0, 0, 0],
                   [0, 0, 0, 0, 0, 0, 0, 0, 0],
                   [0, 0, 0, 0, 0, 0, 0, 0, 0],
                   [0, 0, 0, 0, 0, 0, 0, 0, 0],
                   [0, 0, 0, 0, 0, 0, 0, 0, 0],
                   [0, 0, 0, 0, 0, 0, 0, 0, 0],
                   [0, 0, 0, 0, 0, 0, 0, 0, 0]]"

text \<open>A board with two 7s in its first row.\<close>

definition twoSevensBoard :: board where
  "twoSevensBoard = [[7, 0, 0, 7, 0, 0, 0, 0, 0],
                     [0, 0, 0, 0, 0, 0, 0, 0, 0],
                     [0, 0, 0, 0, 0, 0, 0, 0, 0],
                     [0, 0, 0, 0, 0, 0, 0, 0, 0],
                     [0, 0, 0, 0, 0, 0, 0, 0, 0],
                     [0, 0, 0, 0, 0, 0, 0, 0, 0],
                     [0, 0, 0, 0, 0, 0, 0, 0, 0],
                     [0, 0, 0, 0, 0, 0, 0, 0, 0],
                     [0, 0, 0, 0, 0, 0, 0, 0, 0]]"

text \<open>A board of nine rows whose first two rows have lost their last cell.\<close>

definition raggedBoard :: board where
  "raggedBoard = [[0, 0, 0, 0, 0, 0, 0, 0],
                  [0, 0, 0, 0, 0, 0, 0, 0],
                  [0, 0, 0, 0, 0, 0, 0, 0, 0],
                  [0, 0, 0, 0, 0, 0, 0, 0, 0],
                  [0, 0, 0, 0, 0, 0, 0, 0, 0],
                  [0, 0, 0, 0, 0, 0, 0, 0, 0],
                  [0, 0, 0, 0, 0, 0, 0, 0, 0],
                  [0, 0, 0, 0, 0, 0, 0, 0, 0],
                  [0, 0, 0, 0, 0, 0, 0, 0, 0]]"

text \<open>A heap holding the nine rows of the reference puzzle and, at address 9, the board.\<close>

definition classicHeap :: heap where
  "classicHeap = map Cells classicPuzzle @ [Rows [0, 1, 2, 3, 4, 5, 6, 7, 8]]"

text \<open>
  The JavaScript value that a board is: an array of arrays of integers. A candidate decodes
  to a board of the documented shape when it is \<open>encodeBoard b\<close> for a well-formed \<open>b\<close>.
\<close>

definition encodeBoard :: "board \<Rightarrow> jsvalue" where
  "encodeBoard b = JArray (map (\<lambda>cells. JArray (map (\<lambda>v. JNumber (of_nat v)) cells)) b)"

text \<open>A 9 by 9 array of numbers whose first cell is 0.5 and whose other cells are 0.\<close>

definition zeroRow :: "jsvalue" where
  "zeroRow = JArray [JNumber 0, JNumber 0, JNumber 0, JNumber 0, JNumber 0,
                     JNumber 0, JNumber 0, JNumber 0, JNumber 0]"

definition fractionCandidate :: jsvalue where
  "fractionCandidate =
     JArray [JArray [JNumber (1 / 2), JNumber 0, JNumber 0, JNumber 0, JNumber 0,
                     JNumber 0, JNumber 0, JNumber 0, JNumber 0],
             zeroRow, zeroRow, zeroRow, zeroRow, zeroRow, zeroRow, zeroRow, zeroRow]"

text \<open>A source of random numbers: the one that always draws 0.\<close>

definition zeroSource :: random_source where
  "zeroSource = (\<lambda>n. Abs_random_value 0)"

section \<open>The placement validator and the conflict detector\<close>

lemma sameUnit_sym: "sameUnit r c r' c' \<Longrightarrow> sameUnit r' c' r c"
  by (auto simp: sameUnit_def)

lemma div3_iff: "((q::nat) * 3 \<le> r' \<and> r' < q * 3 + 3) = (r' div 3 = q)"
  by (auto simp: div_nat_eqI dest: div_le_mono[where k=3])

lemma block_range_iff:
  "(r' \<in> set [(r div 3) * 3 ..< (r div 3) * 3 + 3]) = (r' div 3 = r div (3::nat))"
  using div3_iff[of "r div 3" r'] by simp

lemma block_range_bound:
  assumes "r < 9" and "r' div 3 = r div (3::nat)"
  shows "r' < 9"
proof -
  from assms(1) have "r div 3 < 3" by (simp add: div_less_iff_less_mult)
  with assms(2) have "r' div 3 < 3" by simp
  then show ?thesis by (simp add: div_less_iff_less_mult)
qed

lemma placement_if_chain:
  "(if v = (0::nat) then True
    else if A then False else if B then False else (if C then False else True))
     = (v = 0 \<or> (\<not> A \<and> \<not> B \<and> \<not> C))"
  by simp

lemma nonzero_disj: "v \<noteq> (0::nat) \<Longrightarrow> (v = 0 \<or> X) = X"
  by simp

lemma isValidPlacement_unfold:
  assumes "v \<noteq> 0"
  shows "isValidPlacement board r c v =
     (\<not> (\<exists>c' \<in> set [0..<GRID_SIZE]. c' \<noteq> c \<and> cellAt board r c' = Some v) \<and>
      \<not> (\<exists>r' \<in> set [0..<GRID_SIZE]. r' \<noteq> r \<and> cellAt board r' c = Some v) \<and>
      \<not> (\<exists>r' \<in> set [(r div 3) * 3 ..< (r div 3) * 3 + 3].
         \<exists>c' \<in> set [(c div 3) * 3 ..< (c div 3) * 3 + 3].
          (r' \<noteq> r \<or> c' \<noteq> c) \<and> cellAt board r' c' = Some v))"
  unfolding isValidPlacement_def BLOCK_SIZE_def Let_def placement_if_chain
  by (rule nonzero_disj[OF assms])

lemma isValidPlacement_iff:
  assumes "r < GRID_SIZE" "c < GRID_SIZE" "v \<noteq> 0"
  shows "isValidPlacement board r c v =
           (\<forall>r' c'. r' < GRID_SIZE \<and> c' < GRID_SIZE \<and> (r' \<noteq> r \<or> c' \<noteq> c) \<and> sameUnit r c r' c'
                \<longrightarrow> cellAt board r' c' \<noteq> Some v)"
proof
  assume valid: "isValidPlacement board r c v"
  show "\<forall>r' c'. r' < GRID_SIZE \<and> c' < GRID_SIZE \<and> (r' \<noteq> r \<or> c' \<noteq> c) \<and> sameUnit r c r' c'
                \<longrightarrow> cellAt board r' c' \<noteq> Some v"
  proof (intro allI impI, elim conjE)
    fix r' c'
    assume r': "r' < GRID_SIZE" and c': "c' < GRID_SIZE" and ne: "r' \<noteq> r \<or> c' \<noteq> c"
      and su: "sameUnit r c r' c'"
    from valid have
      rowfree: "\<not> (\<exists>c'' \<in> set [0..<GRID_SIZE]. c'' \<noteq> c \<and> cellAt board r c'' = Some v)" and
      colfree: "\<not> (\<exists>r'' \<in> set [0..<GRID_SIZE]. r'' \<noteq> r \<and> cellAt board r'' c = Some v)" and
      blockfree: "\<not> (\<exists>r'' \<in> set [(r div 3) * 3 ..< (r div 3) * 3 + 3].
                   \<exists>c'' \<in> set [(c div 3) * 3 ..< (c div 3) * 3 + 3].
                     (r'' \<noteq> r \<or> c'' \<noteq> c) \<and> cellAt board r'' c'' = Some v)"
      unfolding isValidPlacement_unfold[OF assms(3)] by blast+
    from su consider "r' = r" | "c' = c" | "r' div 3 = r div 3 \<and> c' div 3 = c div 3"
      unfolding sameUnit_def BLOCK_SIZE_def by blast
    then show "cellAt board r' c' \<noteq> Some v"
    proof cases
      case 1
      from c' have "c' \<in> set [0..<GRID_SIZE]" by simp
      with rowfree 1 ne show ?thesis by blast
    next
      case 2
      from r' have "r' \<in> set [0..<GRID_SIZE]" by simp
      with colfree 2 ne show ?thesis by blast
    next
      case 3
      then have "r' \<in> set [(r div 3) * 3 ..< (r div 3) * 3 + 3]"
        and "c' \<in> set [(c div 3) * 3 ..< (c div 3) * 3 + 3]"
        unfolding block_range_iff by blast+
      with blockfree ne show ?thesis by blast
    qed
  qed
next
  assume free: "\<forall>r' c'. r' < GRID_SIZE \<and> c' < GRID_SIZE \<and> (r' \<noteq> r \<or> c' \<noteq> c) \<and> sameUnit r c r' c'
                \<longrightarrow> cellAt board r' c' \<noteq> Some v"
  have rowfree: "\<not> (\<exists>c' \<in> set [0..<GRID_SIZE]. c' \<noteq> c \<and> cellAt board r c' = Some v)"
  proof
    assume "\<exists>c' \<in> set [0..<GRID_SIZE]. c' \<noteq> c \<and> cellAt board r c' = Some v"
    then obtain c' where "c' < GRID_SIZE" "c' \<noteq> c" "cellAt board r c' = Some v" by auto
    moreover have "sameUnit r c r c'" by (simp add: sameUnit_def)
    ultimately show False using free assms(1) by blast
  qed
  have colfree: "\<not> (\<exists>r' \<in> set [0..<GRID_SIZE]. r' \<noteq> r \<and> cellAt board r' c = Some v)"
  proof
    assume "\<exists>r' \<in> set [0..<GRID_SIZE]. r' \<noteq> r \<and> cellAt board r' c = Some v"
    then obtain r' where "r' < GRID_SIZE" "r' \<noteq> r" "cellAt board r' c = Some v" by auto
    moreover have "sameUnit r c r' c" by (simp add: sameUnit_def)
    ultimately show False using free assms(2) by blast
  qed
  have blockfree: "\<not> (\<exists>r' \<in> set [(r div 3) * 3 ..< (r div 3) * 3 + 3].
                   \<exists>c' \<in> set [(c div 3) * 3 ..< (c div 3) * 3 + 3].
                     (r' \<noteq> r \<or> c' \<noteq> c) \<and> cellAt board r' c' = Some v)"
  proof
    assume "\<exists>r' \<in> set [(r div 3) * 3 ..< (r div 3) * 3 + 3].
                   \<exists>c' \<in> set [(c div 3) * 3 ..< (c div 3) * 3 + 3].
                     (r' \<noteq> r \<or> c' \<noteq> c) \<and> cellAt board r' c' = Some v"
    then obtain r' c' where
      r': "r' \<in> set [(r div 3) * 3 ..< (r div 3) * 3 + 3]" and
      c': "c' \<in> set [(c div 3) * 3 ..< (c div 3) * 3 + 3]" and
      ne: "r' \<noteq> r \<or> c' \<noteq> c" and hit: "cellAt board r' c' = Some v"
      by blast
    from r' c' have d: "r' div 3 = r div 3" "c' div 3 = c div 3"
      unfolding block_range_iff by blast+
    with assms(1,2) have "r' < GRID_SIZE" "c' < GRID_SIZE"
      using block_range_bound[of r r'] block_range_bound[of c c'] by (simp_all add: GRID_SIZE_def)
    moreover from d have "sameUnit r c r' c'" by (simp add: sameUnit_def BLOCK_SIZE_def)
    ultimately show False using free ne hit by blast
  qed
  from rowfree colfree blockfree show "isValidPlacement board r c v"
    unfolding isValidPlacement_unfold[OF assms(3)] by blast
qed

text \<open>
  The three loops, for any test \<open>P\<close> of a cell: none of them finds a cell when no other cell
  of the same row, column or block passes the test.
\<close>

lemma unit_scan_iff:
  assumes "r < GRID_SIZE" "c < GRID_SIZE"
  shows "(\<not> (\<exists>c' \<in> set [0..<GRID_SIZE]. c' \<noteq> c \<and> P r c') \<and>
          \<not> (\<exists>r' \<in> set [0..<GRID_SIZE]. r' \<noteq> r \<and> P r' c) \<and>
          \<not> (\<exists>r' \<in> set [(r div 3) * 3 ..< (r div 3) * 3 + 3].
             \<exists>c' \<in> set [(c div 3) * 3 ..< (c div 3) * 3 + 3].
              (r' \<noteq> r \<or> c' \<noteq> c) \<and> P r' c')) =
           (\<forall>r' c'. r' < GRID_SIZE \<and> c' < GRID_SIZE \<and> (r' \<noteq> r \<or> c' \<noteq> c) \<and> sameUnit r c r' c'
                \<longrightarrow> \<not> P r' c')"
proof
  assume valid: "\<not> (\<exists>c' \<in> set [0..<GRID_SIZE]. c' \<noteq> c \<and> P r c') \<and>
          \<not> (\<exists>r' \<in> set [0..<GRID_SIZE]. r' \<noteq> r \<and> P r' c) \<and>
          \<not> (\<exists>r' \<in> set [(r div 3) * 3 ..< (r div 3) * 3 + 3].
             \<exists>c' \<in> set [(c div 3) * 3 ..< (c div 3) * 3 + 3].
              (r' \<noteq> r \<or> c' \<noteq> c) \<and> P r' c')"
  show "\<forall>r' c'. r' < GRID_SIZE \<and> c' < GRID_SIZE \<and> (r' \<noteq> r \<or> c' \<noteq> c) \<and> sameUnit r c r' c'
                \<longrightarrow> \<not> P r' c'"
  proof (intro allI impI, elim conjE)
    fix r' c'
    assume r': "r' < GRID_SIZE" and c': "c' < GRID_SIZE" and ne: "r' \<noteq> r \<or> c' \<noteq> c"
      and su: "sameUnit r c r' c'"
    from valid have
      rowfree: "\<not> (\<exists>c'' \<in> set [0..<GRID_SIZE]. c'' \<noteq> c \<and> P r c'')" and
      colfree: "\<not> (\<exists>r'' \<in> set [0..<GRID_SIZE]. r'' \<noteq> r \<and> P r'' c)" and
      blockfree: "\<not> (\<exists>r'' \<in> set [(r div 3) * 3 ..< (r div 3) * 3 + 3].
                   \<exists>c'' \<in> set [(c div 3) * 3 ..< (c div 3) * 3 + 3].
                     (r'' \<noteq> r \<or> c'' \<noteq> c) \<and> P r'' c'')"
      by blast+
    from su consider "r' = r" | "c' = c" | "r' div 3 = r div 3 \<and> c' div 3 = c div 3"
      unfolding sameUnit_def BLOCK_SIZE_def by blast
    then show "\<not> P r' c'"
    proof cases
      case 1
      from c' have "c' \<in> set [0..<GRID_SIZE]" by simp
      with rowfree 1 ne show ?thesis by blast
    next
      case 2
      from r' have "r' \<in> set [0..<GRID_SIZE]" by simp
      with colfree 2 ne show ?thesis by blast
    next
      case 3
      then have "r' \<in> set [(r div 3) * 3 ..< (r div 3) * 3 + 3]"
        and "c' \<in> set [(c div 3) * 3 ..< (c div 3) * 3 + 3]"
        unfolding block_range_iff by blast+
      with blockfree ne show ?thesis by blast
    qed
  qed
next
  assume free: "\<forall>r' c'. r' < GRID_SIZE \<and> c' < GRID_SIZE \<and> (r' \<noteq> r \<or> c' \<noteq> c) \<and> sameUnit r c r' c'
                \<longrightarrow> \<not> P r' c'"
  have rowfree: "\<not> (\<exists>c' \<in> set [0..<GRID_SIZE]. c' \<noteq> c \<and> P r c')"
  proof
    assume "\<exists>c' \<in> set [0..<GRID_SIZE]. c' \<noteq> c \<and> P r c'"
    then obtain c' where "c' < GRID_SIZE" "c' \<noteq> c" "P r c'" by auto
    moreover have "sameUnit r c r c'" by (simp add: sameUnit_def)
    ultimately show False using free assms(1) by blast
  qed
  have colfree: "\<not> (\<exists>r' \<in> set [0..<GRID_SIZE]. r' \<noteq> r \<and> P r' c)"
  proof
    assume "\<exists>r' \<in> set [0..<GRID_SIZE]. r' \<noteq> r \<and> P r' c"
    then obtain r' where "r' < GRID_SIZE" "r' \<noteq> r" "P r' c" by auto
    moreover have "sameUnit r c r' c" by (simp add: sameUnit_def)
    ultimately show False using free assms(2) by blast
  qed
  have blockfree: "\<not> (\<exists>r' \<in> set [(r div 3) * 3 ..< (r div 3) * 3 + 3].
                   \<exists>c' \<in> set [(c div 3) * 3 ..< (c div 3) * 3 + 3].
                     (r' \<noteq> r \<or> c' \<noteq> c) \<and> P r' c')"
  proof
    assume "\<exists>r' \<in> set [(r div 3) * 3 ..< (r div 3) * 3 + 3].
                   \<exists>c' \<in> set [(c div 3) * 3 ..< (c div 3) * 3 + 3].
                     (r' \<noteq> r \<or> c' \<noteq> c) \<and> P r' c'"
    then obtain r' c' where
      r': "r' \<in> set [(r div 3) * 3 ..< (r div 3) * 3 + 3]" and
      c': "c' \<in> set [(c div 3) * 3 ..< (c div 3) * 3 + 3]" and
      ne: "r' \<noteq> r \<or> c' \<noteq> c" and hit: "P r' c'"
      by blast
    from r' c' have d: "r' div 3 = r div 3" "c' div 3 = c div 3"
      unfolding block_range_iff by blast+
    with assms(1,2) have "r' < GRID_SIZE" "c' < GRID_SIZE"
      using block_range_bound[of r r'] block_range_bound[of c c'] by (simp_all add: GRID_SIZE_def)
    moreover from d have "sameUnit r c r' c'" by (simp add: sameUnit_def BLOCK_SIZE_def)
    ultimately show False using free ne hit by blast
  qed
  from rowfree colfree blockfree
  show "\<not> (\<exists>c' \<in> set [0..<GRID_SIZE]. c' \<noteq> c \<and> P r c') \<and>
          \<not> (\<exists>r' \<in> set [0..<GRID_SIZE]. r' \<noteq> r \<and> P r' c) \<and>
          \<not> (\<exists>r' \<in> set [(r div 3) * 3 ..< (r div 3) * 3 + 3].
             \<exists>c' \<in> set [(c div 3) * 3 ..< (c div 3) * 3 + 3].
              (r' \<noteq> r \<or> c' \<noteq> c) \<and> P r' c')"
    by blast
qed

lemma undefined_if_chain:
  "(if A then False else if B then False else (if C then False else True))
     = (\<not> A \<and> \<not> B \<and> \<not> C)"
  by simp

lemma isValidPlacement_undefined_iff:
  assumes "r < GRID_SIZE" "c < GRID_SIZE"
  shows "isValidPlacement_undefined board r c =
           (\<forall>r' c'. r' < GRID_SIZE \<and> c' < GRID_SIZE \<and> (r' \<noteq> r \<or> c' \<noteq> c) \<and> sameUnit r c r' c'
                \<longrightarrow> \<not> cellAt board r' c' = None)"
  unfolding isValidPlacement_undefined_def BLOCK_SIZE_def Let_def undefined_if_chain
  by (rule unit_scan_iff[OF assms, where P = "\<lambda>r c. cellAt board r c = None"])

lemma allPositions_iff:
  "(p \<in> set allPositions) = (row p < GRID_SIZE \<and> col p < GRID_SIZE)"
  by (cases p) (auto simp: allPositions_def image_iff)

lemma distinct_allPositions: "distinct allPositions"
  by code_simp


lemma getConflicts_iff:
  "(p \<in> set (getConflicts board)) =
     (row p < GRID_SIZE \<and> col p < GRID_SIZE \<and>
      ((\<exists>v. cellAt board (row p) (col p) = Some v \<and> v \<noteq> 0
            \<and> \<not> isValidPlacement board (row p) (col p) v)
       \<or> (cellAt board (row p) (col p) = None
            \<and> \<not> isValidPlacement_undefined board (row p) (col p))))"
  by (auto simp: getConflicts_def allPositions_iff split: option.splits)

lemma conflict_has_partner:
  assumes "p \<in> set (getConflicts board)"
  shows "\<exists>q \<in> set (getConflicts board). q \<noteq> p
            \<and> sameUnit (row p) (col p) (row q) (col q)
            \<and> cellAt board (row q) (col q) = cellAt board (row p) (col p)
            \<and> cellAt board (row p) (col p) \<noteq> Some 0"
proof -
  from assms have rp: "row p < GRID_SIZE" and cp: "col p < GRID_SIZE"
    unfolding getConflicts_iff by blast+
  show ?thesis
  proof (cases "cellAt board (row p) (col p)")
    case (Some v)
    note v = Some
    from assms v have v0: "v \<noteq> 0" and bad: "\<not> isValidPlacement board (row p) (col p) v"
      unfolding getConflicts_iff by simp_all
    from bad obtain r' c' where
      r': "r' < GRID_SIZE" and c': "c' < GRID_SIZE" and ne: "r' \<noteq> row p \<or> c' \<noteq> col p" and
      su: "sameUnit (row p) (col p) r' c'" and hit: "cellAt board r' c' = Some v"
      unfolding isValidPlacement_iff[OF rp cp v0] by blast
    let ?q = "\<lparr>row = r', col = c'\<rparr>"
    have "\<not> isValidPlacement board r' c' v"
      unfolding isValidPlacement_iff[OF r' c' v0]
      using rp cp ne sameUnit_sym[OF su] v by blast
    with r' c' hit v0 have "?q \<in> set (getConflicts board)"
      unfolding getConflicts_iff by simp
    moreover from ne have "?q \<noteq> p" by auto
    ultimately show ?thesis using su hit v v0 by (intro bexI[of _ ?q]) simp_all
  next
    case None
    note none = None
    from assms none have bad: "\<not> isValidPlacement_undefined board (row p) (col p)"
      unfolding getConflicts_iff by simp
    from bad obtain r' c' where
      r': "r' < GRID_SIZE" and c': "c' < GRID_SIZE" and ne: "r' \<noteq> row p \<or> c' \<noteq> col p" and
      su: "sameUnit (row p) (col p) r' c'" and hit: "cellAt board r' c' = None"
      unfolding isValidPlacement_undefined_iff[OF rp cp] by blast
    let ?q = "\<lparr>row = r', col = c'\<rparr>"
    have "\<not> isValidPlacement_undefined board r' c'"
      unfolding isValidPlacement_undefined_iff[OF r' c']
      using rp cp ne sameUnit_sym[OF su] none by blast
    with r' c' hit have "?q \<in> set (getConflicts board)"
      unfolding getConflicts_iff by simp
    moreover from ne have "?q \<noteq> p" by auto
    ultimately show ?thesis using su hit none by (intro bexI[of _ ?q]) simp_all
  qed
qed

text \<open>
  Outside the documented shape the two cells that read \<open>undefined\<close> in one column are
  reported, as the code reports them.
\<close>

lemma getConflicts_ragged:
  "getConflicts raggedBoard = [\<lparr>row = 0, col = 8\<rparr>, \<lparr>row = 1, col = 8\<rparr>]"
  by code_simp

section \<open>Boards\<close>

lemma wf_cellAt:
  assumes "wf_board b" "r < GRID_SIZE" "c < GRID_SIZE"
  shows "\<exists>v. v \<le> 9 \<and> cellAt b r c = Some v"
proof -
  from assms have r: "r < length b" by (simp add: wf_board_def)
  then have "b ! r \<in> set b" by simp
  with assms(1) have len: "length (b ! r) = GRID_SIZE" and vals: "\<forall>v \<in> set (b ! r). v \<le> 9"
    by (auto simp: wf_board_def list_all_iff)
  from len assms(3) have c: "c < length (b ! r)" by simp
  then have "b ! r ! c \<in> set (b ! r)" by simp
  with vals have "b ! r ! c \<le> 9" by blast
  with r c show ?thesis by (simp add: cellAt_def)
qed

lemma wf_setCell:
  assumes "wf_board b" "v \<le> 9"
  shows "wf_board (setCell b r c v)"
proof (cases "r < length b")
  case False
  then have "setCell b r c v = b" by (simp add: setCell_def list_update_beyond)
  with assms(1) show ?thesis by simp
next
  case True
  then have "b ! r \<in> set b" by simp
  with assms(1) have row: "length (b ! r) = GRID_SIZE" "\<forall>w \<in> set (b ! r). w \<le> 9"
    by (auto simp: wf_board_def list_all_iff)
  have "set ((b ! r)[c := v]) \<subseteq> insert v (set (b ! r))"
    by (rule set_update_subset_insert)
  with row assms(2) have new: "length ((b ! r)[c := v]) = GRID_SIZE"
    "\<forall>w \<in> set ((b ! r)[c := v]). w \<le> 9" by auto
  have "set (setCell b r c v) \<subseteq> insert ((b ! r)[c := v]) (set b)"
    unfolding setCell_def by (rule set_update_subset_insert)
  with new assms(1) have "\<forall>cells \<in> set (setCell b r c v).
      length cells = GRID_SIZE \<and> (\<forall>w \<in> set cells. w \<le> 9)"
    by (auto simp: wf_board_def list_all_iff)
  moreover have "length (setCell b r c v) = GRID_SIZE"
    using assms(1) by (simp add: setCell_def wf_board_def)
  ultimately show ?thesis by (simp add: wf_board_def list_all_iff)
qed

lemma wf_board_ext:
  assumes "wf_board a" "wf_board b"
    and "\<And>r c. r < GRID_SIZE \<Longrightarrow> c < GRID_SIZE \<Longrightarrow> cellAt a r c = cellAt b r c"
  shows "a = b"
proof (rule nth_equalityI)
  from assms(1,2) show "length a = length b" by (simp add: wf_board_def)
next
  fix r assume "r < length a"
  with assms(1,2) have r: "r < GRID_SIZE" "r < length a" "r < length b"
    by (simp_all add: wf_board_def)
  then have "a ! r \<in> set a" "b ! r \<in> set b" by simp_all
  with assms(1,2) have la: "length (a ! r) = GRID_SIZE" and lb: "length (b ! r) = GRID_SIZE"
    by (auto simp: wf_board_def list_all_iff)
  show "a ! r = b ! r"
  proof (rule nth_equalityI)
    from la lb show "length (a ! r) = length (b ! r)" by simp
  next
    fix c assume "c < length (a ! r)"
    with la have c: "c < GRID_SIZE" by simp
    from assms(3)[OF r(1) c] r la lb c show "a ! r ! c = b ! r ! c"
      by (simp add: cellAt_def)
  qed
qed

lemma valid_boardD:
  assumes "valid_board b" "r < GRID_SIZE" "c < GRID_SIZE" "r' < GRID_SIZE" "c' < GRID_SIZE"
    "r' \<noteq> r \<or> c' \<noteq> c" "sameUnit r c r' c'" "cellAt b r c \<noteq> Some 0"
  shows "cellAt b r' c' \<noteq> cellAt b r c"
proof -
  from assms(2-5) have "r \<in> set [0..<GRID_SIZE]" "c \<in> set [0..<GRID_SIZE]"
    "r' \<in> set [0..<GRID_SIZE]" "c' \<in> set [0..<GRID_SIZE]" by simp_all
  with assms(1,6,7,8) show ?thesis unfolding valid_board_def by blast
qed

lemma valid_boardI:
  assumes "\<And>r c r' c'. r < GRID_SIZE \<Longrightarrow> c < GRID_SIZE \<Longrightarrow> r' < GRID_SIZE \<Longrightarrow> c' < GRID_SIZE
     \<Longrightarrow> r' \<noteq> r \<or> c' \<noteq> c \<Longrightarrow> sameUnit r c r' c' \<Longrightarrow> cellAt b r c \<noteq> Some 0
     \<Longrightarrow> cellAt b r' c' \<noteq> cellAt b r c"
  shows "valid_board b"
  unfolding valid_board_def using assms by simp

lemma full_boardD:
  "full_board b \<Longrightarrow> r < GRID_SIZE \<Longrightarrow> c < GRID_SIZE \<Longrightarrow> cellAt b r c \<noteq> Some 0"
  by (simp add: full_board_def)

lemma completesD:
  "completes board s \<Longrightarrow> r < GRID_SIZE \<Longrightarrow> c < GRID_SIZE \<Longrightarrow> cellAt board r c \<noteq> Some 0
     \<Longrightarrow> cellAt s r c = cellAt board r c"
  by (force simp: completes_def)

lemma findEmptyCell_range:
  "findEmptyCell m = Some p \<Longrightarrow> row p < GRID_SIZE \<and> col p < GRID_SIZE"
  using allPositions_iff[of p] by (auto simp: findEmptyCell_def find_Some_iff)

lemma findEmptyCell_None: "(findEmptyCell m = None) = full_board m"
proof
  assume n: "findEmptyCell m = None"
  show "full_board m"
    unfolding full_board_def
  proof (intro ballI)
    fix r c assume "r \<in> set [0..<GRID_SIZE]" "c \<in> set [0..<GRID_SIZE]"
    then have "\<lparr>row = r, col = c\<rparr> \<in> set allPositions" by (simp add: allPositions_iff)
    with n show "cellAt m r c \<noteq> Some 0"
      unfolding findEmptyCell_def find_None_iff by force
  qed
next
  assume "full_board m"
  then show "findEmptyCell m = None"
    unfolding findEmptyCell_def find_None_iff full_board_def
    by (auto simp: allPositions_iff)
qed

lemma getConflicts_iff_wf:
  assumes "wf_board board"
  shows "(p \<in> set (getConflicts board)) =
     (row p < GRID_SIZE \<and> col p < GRID_SIZE \<and>
      (\<exists>v. cellAt board (row p) (col p) = Some v \<and> v \<noteq> 0
           \<and> \<not> isValidPlacement board (row p) (col p) v))"
proof (cases "row p < GRID_SIZE \<and> col p < GRID_SIZE")
  case False
  then show ?thesis unfolding getConflicts_iff by blast
next
  case True
  with wf_cellAt[OF assms, of "row p" "col p"]
  have "cellAt board (row p) (col p) \<noteq> None" by auto
  then show ?thesis unfolding getConflicts_iff by blast
qed

lemma valid_iff_placements:
  assumes "wf_board b"
  shows "valid_board b =
     (\<forall>r c v. r < GRID_SIZE \<and> c < GRID_SIZE \<and> cellAt b r c = Some v \<and> v \<noteq> 0
         \<longrightarrow> isValidPlacement b r c v)"
proof
  assume v: "valid_board b"
  show "\<forall>r c v. r < GRID_SIZE \<and> c < GRID_SIZE \<and> cellAt b r c = Some v \<and> v \<noteq> 0
         \<longrightarrow> isValidPlacement b r c v"
  proof (intro allI impI, elim conjE)
    fix r c w assume r: "r < GRID_SIZE" and c: "c < GRID_SIZE"
      and w: "cellAt b r c = Some w" and w0: "w \<noteq> 0"
    show "isValidPlacement b r c w"
      unfolding isValidPlacement_iff[OF r c w0]
    proof (intro allI impI, elim conjE)
      fix r' c' assume "r' < GRID_SIZE" "c' < GRID_SIZE" "r' \<noteq> r \<or> c' \<noteq> c" "sameUnit r c r' c'"
      from valid_boardD[OF v r c this] w w0 show "cellAt b r' c' \<noteq> Some w" by simp
    qed
  qed
next
  assume a: "\<forall>r c v. r < GRID_SIZE \<and> c < GRID_SIZE \<and> cellAt b r c = Some v \<and> v \<noteq> 0
         \<longrightarrow> isValidPlacement b r c v"
  show "valid_board b"
  proof (rule valid_boardI)
    fix r c r' c'
    assume r: "r < GRID_SIZE" and c: "c < GRID_SIZE" and r': "r' < GRID_SIZE" and c': "c' < GRID_SIZE"
      and ne: "r' \<noteq> r \<or> c' \<noteq> c" and su: "sameUnit r c r' c'" and nz: "cellAt b r c \<noteq> Some 0"
    from wf_cellAt[OF assms r c] obtain w where w: "cellAt b r c = Some w" by blast
    with nz have w0: "w \<noteq> 0" by simp
    from a r c w w0 have "isValidPlacement b r c w" by blast
    then show "cellAt b r' c' \<noteq> cellAt b r c"
      unfolding isValidPlacement_iff[OF r c w0] using r' c' ne su w by simp
  qed
qed

lemma getConflicts_Nil_iff:
  assumes "wf_board b"
  shows "(getConflicts b = []) = valid_board b"
proof -
  have "(getConflicts b = []) = (\<forall>p. p \<notin> set (getConflicts b))" by auto
  also have "\<dots> = (\<forall>r c v. r < GRID_SIZE \<and> c < GRID_SIZE \<and> cellAt b r c = Some v \<and> v \<noteq> 0
         \<longrightarrow> isValidPlacement b r c v)"
  proof
    assume a: "\<forall>p. p \<notin> set (getConflicts b)"
    show "\<forall>r c v. r < GRID_SIZE \<and> c < GRID_SIZE \<and> cellAt b r c = Some v \<and> v \<noteq> 0
         \<longrightarrow> isValidPlacement b r c v"
    proof (intro allI impI, elim conjE)
      fix r c v assume "r < GRID_SIZE" "c < GRID_SIZE" "cellAt b r c = Some v" "v \<noteq> 0"
      with a[rule_format, of "\<lparr>row = r, col = c\<rparr>"] show "isValidPlacement b r c v"
        unfolding getConflicts_iff_wf[OF assms] by simp
    qed
  next
    assume "\<forall>r c v. r < GRID_SIZE \<and> c < GRID_SIZE \<and> cellAt b r c = Some v \<and> v \<noteq> 0
         \<longrightarrow> isValidPlacement b r c v"
    then show "\<forall>p. p \<notin> set (getConflicts b)"
      unfolding getConflicts_iff_wf[OF assms] by blast
  qed
  also have "\<dots> = valid_board b" using valid_iff_placements[OF assms] by simp
  finally show ?thesis .
qed

lemma isValidPartialBoard_iff: "wf_board b \<Longrightarrow> isValidPartialBoard b = valid_board b"
  by (simp add: isValidPartialBoard_def getConflicts_Nil_iff)

lemma isBoardComplete_iff:
  assumes "wf_board b"
  shows "isBoardComplete b = solved_board b"
proof (cases "findEmptyCell b")
  case (Some p)
  then have "\<not> full_board b" using findEmptyCell_None[of b] by simp
  with Some show ?thesis by (simp add: isBoardComplete_def solved_board_def)
next
  case None
  then have full: "full_board b" by (simp add: findEmptyCell_None)
  have "isBoardComplete b =
          (\<forall>p \<in> set allPositions. case cellAt b (row p) (col p) of
               None \<Rightarrow> isValidPlacement_undefined b (row p) (col p)
             | Some v \<Rightarrow> v \<noteq> 0 \<and> isValidPlacement b (row p) (col p) v)"
    using None by (simp add: isBoardComplete_def list_all_iff)
  also have "\<dots> = (\<forall>r c v. r < GRID_SIZE \<and> c < GRID_SIZE \<and> cellAt b r c = Some v \<and> v \<noteq> 0
         \<longrightarrow> isValidPlacement b r c v)"
  proof
    assume a: "\<forall>p \<in> set allPositions. case cellAt b (row p) (col p) of
               None \<Rightarrow> isValidPlacement_undefined b (row p) (col p)
             | Some v \<Rightarrow> v \<noteq> 0 \<and> isValidPlacement b (row p) (col p) v"
    show "\<forall>r c v. r < GRID_SIZE \<and> c < GRID_SIZE \<and> cellAt b r c = Some v \<and> v \<noteq> 0
         \<longrightarrow> isValidPlacement b r c v"
    proof (intro allI impI, elim conjE)
      fix r c v assume h: "r < GRID_SIZE" "c < GRID_SIZE" "cellAt b r c = Some v" "v \<noteq> 0"
      then have "\<lparr>row = r, col = c\<rparr> \<in> set allPositions" by (simp add: allPositions_iff)
      from a[rule_format, OF this] h show "isValidPlacement b r c v" by simp
    qed
  next
    assume a: "\<forall>r c v. r < GRID_SIZE \<and> c < GRID_SIZE \<and> cellAt b r c = Some v \<and> v \<noteq> 0
         \<longrightarrow> isValidPlacement b r c v"
    show "\<forall>p \<in> set allPositions. case cellAt b (row p) (col p) of
               None \<Rightarrow> isValidPlacement_undefined b (row p) (col p)
             | Some v \<Rightarrow> v \<noteq> 0 \<and> isValidPlacement b (row p) (col p) v"
    proof
      fix p assume "p \<in> set allPositions"
      then have r: "row p < GRID_SIZE" and c: "col p < GRID_SIZE" by (simp_all add: allPositions_iff)
      from wf_cellAt[OF assms r c] obtain v where v: "cellAt b (row p) (col p) = Some v" by blast
      with full_boardD[OF full r c] have "v \<noteq> 0" by simp
      with a r c v show "case cellAt b (row p) (col p) of
               None \<Rightarrow> isValidPlacement_undefined b (row p) (col p)
             | Some v \<Rightarrow> v \<noteq> 0 \<and> isValidPlacement b (row p) (col p) v" by simp
    qed
  qed
  also have "\<dots> = valid_board b" using valid_iff_placements[OF assms] by simp
  finally show ?thesis using full assms by (simp add: solved_board_def)
qed

section \<open>Backtracking on valid boards\<close>

lemma cellAt_setCell_same:
  "cellAt m r c = Some w \<Longrightarrow> cellAt (setCell m r c v) r c = Some v"
  by (simp add: cellAt_setCell)

lemma cellAt_setCell_other:
  "r' \<noteq> r \<or> c' \<noteq> c \<Longrightarrow> cellAt (setCell m r c v) r' c' = cellAt m r' c'"
  by (auto simp: cellAt_setCell)

lemma placement_preserves_valid:
  assumes wf: "wf_board m" and valid: "valid_board m"
    and r: "r < GRID_SIZE" and c: "c < GRID_SIZE"
    and empty: "cellAt m r c = Some 0" and v0: "v \<noteq> 0"
    and ok: "isValidPlacement m r c v"
  shows "valid_board (setCell m r c v)"
proof (rule valid_boardI)
  fix r1 c1 r2 c2
  assume r1: "r1 < GRID_SIZE" and c1: "c1 < GRID_SIZE" and r2: "r2 < GRID_SIZE" and c2: "c2 < GRID_SIZE"
    and ne: "r2 \<noteq> r1 \<or> c2 \<noteq> c1" and su: "sameUnit r1 c1 r2 c2"
    and nz: "cellAt (setCell m r c v) r1 c1 \<noteq> Some 0"
  note free = ok[unfolded isValidPlacement_iff[OF r c v0], rule_format]
  show "cellAt (setCell m r c v) r2 c2 \<noteq> cellAt (setCell m r c v) r1 c1"
  proof (cases "r1 = r \<and> c1 = c")
    case True
    with ne have ne2: "r2 \<noteq> r \<or> c2 \<noteq> c" by simp
    from True su have "sameUnit r c r2 c2" by simp
    with free[of r2 c2] r2 c2 ne2 have "cellAt m r2 c2 \<noteq> Some v" by simp
    with True ne2 empty show ?thesis
      by (simp add: cellAt_setCell_same cellAt_setCell_other)
  next
    case False
    then have ne1: "r1 \<noteq> r \<or> c1 \<noteq> c" by simp
    then have eq1: "cellAt (setCell m r c v) r1 c1 = cellAt m r1 c1"
      by (rule cellAt_setCell_other)
    show ?thesis
    proof (cases "r2 = r \<and> c2 = c")
      case True
      from True su have "sameUnit r c r1 c1" by (simp add: sameUnit_sym)
      with free[of r1 c1] r1 c1 ne1 have "cellAt m r1 c1 \<noteq> Some v" by simp
      with True empty eq1 show ?thesis by (simp add: cellAt_setCell_same)
    next
      case False
      then have "cellAt (setCell m r c v) r2 c2 = cellAt m r2 c2"
        by (intro cellAt_setCell_other) simp
      with eq1 nz valid_boardD[OF valid r1 c1 r2 c2 ne su] show ?thesis by simp
    qed
  qed
qed

lemma completion_cell:
  assumes "s \<in> completions m" "r < GRID_SIZE" "c < GRID_SIZE"
  shows "\<exists>v. cellAt s r c = Some v \<and> v \<noteq> 0 \<and> v \<le> 9"
proof -
  from assms(1) have wf: "wf_board s" and full: "full_board s"
    by (simp_all add: completions_def solved_board_def)
  from wf_cellAt[OF wf assms(2,3)] full_boardD[OF full assms(2,3)] show ?thesis by auto
qed

lemma completion_placement_valid:
  assumes s: "s \<in> completions m" and r: "r < GRID_SIZE" and c: "c < GRID_SIZE"
    and sv: "cellAt s r c = Some v" and v0: "v \<noteq> 0"
  shows "isValidPlacement m r c v"
  unfolding isValidPlacement_iff[OF r c v0]
proof (intro allI impI, elim conjE)
  fix r' c'
  assume r': "r' < GRID_SIZE" and c': "c' < GRID_SIZE" and ne: "r' \<noteq> r \<or> c' \<noteq> c"
    and su: "sameUnit r c r' c'"
  from s have valid: "valid_board s" and comp: "completes m s"
    by (simp_all add: completions_def solved_board_def)
  from valid_boardD[OF valid r c r' c' ne su] sv v0 have "cellAt s r' c' \<noteq> Some v" by simp
  with completesD[OF comp r' c'] v0 show "cellAt m r' c' \<noteq> Some v" by auto
qed

lemma completions_setCell:
  assumes r: "r < GRID_SIZE" and c: "c < GRID_SIZE"
    and empty: "cellAt m r c = Some 0" and v0: "v \<noteq> 0"
  shows "completions (setCell m r c v) = {s \<in> completions m. cellAt s r c = Some v}"
proof (intro set_eqI iffI)
  fix s assume s: "s \<in> completions (setCell m r c v)"
  then have solved: "solved_board s" and comp: "completes (setCell m r c v) s"
    by (simp_all add: completions_def)
  have "cellAt (setCell m r c v) r c = Some v" using empty by (rule cellAt_setCell_same)
  with completesD[OF comp r c] v0 have sv: "cellAt s r c = Some v" by simp
  have "completes m s"
    unfolding completes_def
  proof (intro ballI)
    fix r' c' assume "r' \<in> set [0..<GRID_SIZE]" "c' \<in> set [0..<GRID_SIZE]"
    then have r': "r' < GRID_SIZE" and c': "c' < GRID_SIZE" by simp_all
    show "cellAt m r' c' = Some 0 \<or> cellAt s r' c' = cellAt m r' c'"
    proof (cases "r' = r \<and> c' = c")
      case True
      with empty show ?thesis by simp
    next
      case False
      then have "cellAt (setCell m r c v) r' c' = cellAt m r' c'"
        by (intro cellAt_setCell_other) simp
      with completesD[OF comp r' c'] show ?thesis by auto
    qed
  qed
  with solved sv show "s \<in> {s \<in> completions m. cellAt s r c = Some v}"
    by (simp add: completions_def)
next
  fix s assume "s \<in> {s \<in> completions m. cellAt s r c = Some v}"
  then have solved: "solved_board s" and comp: "completes m s" and sv: "cellAt s r c = Some v"
    by (simp_all add: completions_def)
  have "completes (setCell m r c v) s"
    unfolding completes_def
  proof (intro ballI)
    fix r' c' assume "r' \<in> set [0..<GRID_SIZE]" "c' \<in> set [0..<GRID_SIZE]"
    then have r': "r' < GRID_SIZE" and c': "c' < GRID_SIZE" by simp_all
    show "cellAt (setCell m r c v) r' c' = Some 0
            \<or> cellAt s r' c' = cellAt (setCell m r c v) r' c'"
    proof (cases "r' = r \<and> c' = c")
      case True
      with empty sv show ?thesis by (simp add: cellAt_setCell_same)
    next
      case False
      then have "cellAt (setCell m r c v) r' c' = cellAt m r' c'"
        by (intro cellAt_setCell_other) simp
      with completesD[OF comp r' c'] show ?thesis by auto
    qed
  qed
  with solved show "s \<in> completions (setCell m r c v)" by (simp add: completions_def)
qed

lemma completions_full:
  assumes wf: "wf_board m" and valid: "valid_board m" and full: "full_board m"
  shows "completions m = {m}"
proof (intro set_eqI iffI)
  fix s assume "s \<in> completions m"
  then have swf: "wf_board s" and comp: "completes m s"
    by (simp_all add: completions_def solved_board_def)
  have "s = m"
  proof (rule wf_board_ext[OF swf wf])
    fix r c assume r: "r < GRID_SIZE" and c: "c < GRID_SIZE"
    from completesD[OF comp r c full_boardD[OF full r c]]
    show "cellAt s r c = cellAt m r c" .
  qed
  then show "s \<in> {m}" by simp
next
  fix s assume "s \<in> {m}"
  then have "s = m" by simp
  moreover have "completes m m" by (simp add: completes_def)
  ultimately show "s \<in> completions m"
    using wf valid full by (simp add: completions_def solved_board_def)
qed

lemma completions_invalid_placement:
  assumes r: "r < GRID_SIZE" and c: "c < GRID_SIZE" and v0: "v \<noteq> 0"
    and bad: "\<not> isValidPlacement m r c v"
  shows "{s \<in> completions m. cellAt s r c = Some v} = {}"
  using completion_placement_valid[OF _ r c _ v0] bad by blast

text \<open>
  What a call of the solver returns on a well-formed valid board: a completion, or the
  board untouched when there is none.
\<close>

lemma solveBacktrack_correct:
  "wf_board m \<Longrightarrow> valid_board m \<Longrightarrow>
     (case solveBacktrack m of
        (True, s) \<Rightarrow> s \<in> completions m
      | (False, m') \<Rightarrow> m' = m \<and> completions m = {})"
  "wf_board m \<Longrightarrow> valid_board m \<Longrightarrow> r < GRID_SIZE \<Longrightarrow> c < GRID_SIZE \<Longrightarrow>
   cellAt m r c = Some 0 \<Longrightarrow> 0 \<notin> set vs \<Longrightarrow> (\<forall>v \<in> set vs. v \<le> 9) \<Longrightarrow>
     (case solveBacktrack_loop m r c vs of
        (True, s) \<Rightarrow> s \<in> completions m
      | (False, m') \<Rightarrow> m' = m \<and> (\<forall>s \<in> completions m. \<forall>v \<in> set vs. cellAt s r c \<noteq> Some v))"
proof (induction m and m r c vs rule: solveBacktrack_solveBacktrack_loop.induct)
  case (1 m)
  show ?case
  proof (cases "findEmptyCell m")
    case None
    then have "full_board m" by (simp add: findEmptyCell_None)
    with "1.prems" have "completions m = {m}" by (intro completions_full)
    with None show ?thesis by simp
  next
    case (Some p)
    note rng = findEmptyCell_range[OF Some] and empty = findEmptyCell_Some[OF Some]
    let ?res = "solveBacktrack_loop m (row p) (col p) [1, 2, 3, 4, 5, 6, 7, 8, 9]"
    have IH: "case ?res of
        (True, s) \<Rightarrow> s \<in> completions m
      | (False, m') \<Rightarrow> m' = m \<and> (\<forall>s \<in> completions m.
           \<forall>v \<in> set [1, 2, 3, 4, 5, 6, 7, 8, 9]. cellAt s (row p) (col p) \<noteq> Some v)"
      using rng empty by (intro "1.IH"[OF Some "1.prems"]) simp_all
    have eq: "solveBacktrack m = ?res" using Some by simp
    show ?thesis
    proof (cases ?res)
      case (Pair ok y)
      show ?thesis
      proof (cases ok)
        case True
        with IH Pair eq show ?thesis by simp
      next
        case False
        with IH Pair have y: "y = m" and none: "\<forall>s \<in> completions m.
           \<forall>v \<in> set [1, 2, 3, 4, 5, 6, 7, 8, 9 :: nat]. cellAt s (row p) (col p) \<noteq> Some v"
          by simp_all
        have "completions m = {}"
        proof (rule ccontr)
          assume "completions m \<noteq> {}"
          then obtain s where s: "s \<in> completions m" by blast
          from completion_cell[OF s] rng obtain v where
            v: "cellAt s (row p) (col p) = Some v" "v \<noteq> 0" "v \<le> 9" by blast
          then have "v \<in> set [1, 2, 3, 4, 5, 6, 7, 8, 9 :: nat]" by simp arith
          with none s v(1) show False by blast
        qed
        with False Pair eq y show ?thesis by simp
      qed
    qed
  qed
next
  case (2 m r c)
  then show ?case by simp
next
  case (3 m r c v vs)
  from "3.prems"(6) have v0: "v \<noteq> 0" and vs0: "0 \<notin> set vs" by auto
  from "3.prems"(7) have v9: "v \<le> 9" and vs9: "\<forall>v \<in> set vs. v \<le> 9" by auto
  show ?case
  proof (cases "isValidPlacement m r c v")
    case False
    from "3.IH"(1)[OF False "3.prems"(1,2,3,4,5) vs0 vs9]
    have IH: "case solveBacktrack_loop m r c vs of
        (True, s) \<Rightarrow> s \<in> completions m
      | (False, m') \<Rightarrow> m' = m \<and> (\<forall>s \<in> completions m. \<forall>v \<in> set vs. cellAt s r c \<noteq> Some v)" .
    from completions_invalid_placement[OF "3.prems"(3,4) v0 False]
    have nov: "\<forall>s \<in> completions m. cellAt s r c \<noteq> Some v" by blast
    have eq: "solveBacktrack_loop m r c (v # vs) = solveBacktrack_loop m r c vs"
      using False by simp
    show ?thesis
      unfolding eq using IH nov by (auto split: prod.splits bool.splits)
  next
    case True
    let ?m1 = "setCell m r c v"
    have wf1: "wf_board ?m1" using "3.prems"(1) v9 by (rule wf_setCell)
    have valid1: "valid_board ?m1"
      using "3.prems"(1,2,3,4,5) v0 True by (rule placement_preserves_valid)
    have comp1: "completions ?m1 = {s \<in> completions m. cellAt s r c = Some v}"
      using "3.prems"(3,4,5) v0 by (rule completions_setCell)
    from True have nn: "\<not> \<not> isValidPlacement m r c v" by simp
    from "3.IH"(2)[OF nn wf1 valid1]
    have IH1: "case solveBacktrack ?m1 of
        (True, s) \<Rightarrow> s \<in> completions ?m1
      | (False, m') \<Rightarrow> m' = ?m1 \<and> completions ?m1 = {}" .
    obtain ok y where res: "solveBacktrack ?m1 = (ok, y)" by (cases "solveBacktrack ?m1")
    show ?thesis
    proof (cases ok)
      case True
      with IH1 res comp1 have "y \<in> completions m" by simp
      with True res \<open>isValidPlacement m r c v\<close> show ?thesis by simp
    next
      case False
      with IH1 res have y: "y = ?m1" and none1: "completions ?m1 = {}" by simp_all
      from "3.prems"(5) have undo: "setCell y r c 0 = m" unfolding y by (simp add: setCell_same)
      from none1 comp1 have nov: "\<forall>s \<in> completions m. cellAt s r c \<noteq> Some v" by blast
      from False have okF: "ok = False" by simp
      note ih = "3.IH"(3)[OF nn res[symmetric] okF, unfolded undo]
      from ih[OF "3.prems"(1,2,3,4,5) vs0 vs9]
      have IH2: "case solveBacktrack_loop m r c vs of
        (True, s) \<Rightarrow> s \<in> completions m
      | (False, m') \<Rightarrow> m' = m \<and> (\<forall>s \<in> completions m. \<forall>v \<in> set vs. cellAt s r c \<noteq> Some v)" .
      have eq: "solveBacktrack_loop m r c (v # vs) = solveBacktrack_loop m r c vs"
        using \<open>isValidPlacement m r c v\<close> res False undo by simp
      show ?thesis
        unfolding eq using IH2 nov by (auto split: prod.splits bool.splits)
    qed
  qed
qed

lemma finite_wf_boards: "finite {b. wf_board b}"
proof -
  let ?rows = "{cells :: nat list. set cells \<subseteq> {..9} \<and> length cells = GRID_SIZE}"
  have fr: "finite ?rows" by (rule finite_lists_length_eq) simp
  have "finite {b. set b \<subseteq> ?rows \<and> length b = GRID_SIZE}"
    using fr by (rule finite_lists_length_eq)
  moreover have "{b. wf_board b} \<subseteq> {b. set b \<subseteq> ?rows \<and> length b = GRID_SIZE}"
    by (auto simp: wf_board_def list_all_iff)
  ultimately show ?thesis by (rule rev_finite_subset)
qed

lemma finite_completions: "finite (completions m)"
proof -
  have "completions m \<subseteq> {b. wf_board b}"
    by (auto simp: completions_def solved_board_def)
  then show ?thesis using finite_wf_boards by (rule finite_subset)
qed

lemma card_split_digit:
  assumes "v \<notin> set vs"
  shows "card {s \<in> completions m. \<exists>w \<in> set (v # vs). cellAt s r c = Some w}
       = card {s \<in> completions m. cellAt s r c = Some v}
         + card {s \<in> completions m. \<exists>w \<in> set vs. cellAt s r c = Some w}"
proof -
  let ?A = "{s \<in> completions m. cellAt s r c = Some v}"
  let ?B = "{s \<in> completions m. \<exists>w \<in> set vs. cellAt s r c = Some w}"
  have "{s \<in> completions m. \<exists>w \<in> set (v # vs). cellAt s r c = Some w} = ?A \<union> ?B"
    by auto
  moreover have "?A \<inter> ?B = {}" using assms by auto
  moreover have "finite ?A" "finite ?B" using finite_completions[of m] by simp_all
  ultimately show ?thesis by (simp add: card_Un_disjoint)
qed

lemma completions_all_digits:
  assumes "r < GRID_SIZE" "c < GRID_SIZE"
  shows "{s \<in> completions m. \<exists>w \<in> set [1, 2, 3, 4, 5, 6, 7, 8, 9]. cellAt s r c = Some w}
           = completions m"
proof -
  have "\<And>s. s \<in> completions m \<Longrightarrow> \<exists>w \<in> set [1, 2, 3, 4, 5, 6, 7, 8, 9]. cellAt s r c = Some w"
  proof -
    fix s assume "s \<in> completions m"
    from completion_cell[OF this assms] obtain v where
      v: "cellAt s r c = Some v" "v \<noteq> 0" "v \<le> 9" by blast
    then have "v \<in> set [1, 2, 3, 4, 5, 6, 7, 8, 9 :: nat]" by simp arith
    with v(1) show "\<exists>w \<in> set [1, 2, 3, 4, 5, 6, 7, 8, 9]. cellAt s r c = Some w" by blast
  qed
  then show ?thesis by blast
qed

text \<open>
  What a call of the counter returns on a well-formed valid board, entered with the count
  not above the limit: the count grows by the number of completions, cut off at the limit,
  and the board is untouched unless the limit was reached.
\<close>

lemma countBacktrack_correct:
  "wf_board m \<Longrightarrow> valid_board m \<Longrightarrow> count \<le> limit \<Longrightarrow>
     fst (countBacktrack limit count m) = min limit (count + int (card (completions m)))
     \<and> (fst (countBacktrack limit count m) < limit \<longrightarrow> snd (countBacktrack limit count m) = m)"
  "wf_board m \<Longrightarrow> valid_board m \<Longrightarrow> count \<le> limit \<Longrightarrow> r < GRID_SIZE \<Longrightarrow> c < GRID_SIZE \<Longrightarrow>
   cellAt m r c = Some 0 \<Longrightarrow> 0 \<notin> set vs \<Longrightarrow> (\<forall>v \<in> set vs. v \<le> 9) \<Longrightarrow> distinct vs \<Longrightarrow>
     fst (countBacktrack_loop limit count m r c vs)
       = min limit (count + int (card {s \<in> completions m. \<exists>w \<in> set vs. cellAt s r c = Some w}))
     \<and> (fst (countBacktrack_loop limit count m r c vs) < limit
          \<longrightarrow> snd (countBacktrack_loop limit count m r c vs) = m)"
proof (induction limit count m and limit count m r c vs
       rule: countBacktrack_countBacktrack_loop.induct)
  case (1 limit count m)
  show ?case
  proof (cases "count \<ge> limit")
    case True
    with "1.prems"(3) show ?thesis by simp
  next
    case False
    show ?thesis
    proof (cases "findEmptyCell m")
      case None
      then have "full_board m" by (simp add: findEmptyCell_None)
      with "1.prems" have "completions m = {m}" by (intro completions_full)
      with None False show ?thesis by simp
    next
      case (Some p)
      note rng = findEmptyCell_range[OF Some] and empty = findEmptyCell_Some[OF Some]
      have eq: "countBacktrack limit count m
                  = countBacktrack_loop limit count m (row p) (col p) [1, 2, 3, 4, 5, 6, 7, 8, 9]"
        using Some False by simp
      have "fst (countBacktrack_loop limit count m (row p) (col p) [1, 2, 3, 4, 5, 6, 7, 8, 9])
           = min limit (count + int (card {s \<in> completions m.
                 \<exists>w \<in> set [1, 2, 3, 4, 5, 6, 7, 8, 9]. cellAt s (row p) (col p) = Some w}))
         \<and> (fst (countBacktrack_loop limit count m (row p) (col p) [1, 2, 3, 4, 5, 6, 7, 8, 9]) < limit
          \<longrightarrow> snd (countBacktrack_loop limit count m (row p) (col p) [1, 2, 3, 4, 5, 6, 7, 8, 9]) = m)"
        using rng empty by (intro "1.IH"[OF False Some "1.prems"]) simp_all
      then show ?thesis
        unfolding eq completions_all_digits[OF rng[THEN conjunct1] rng[THEN conjunct2]] .
    qed
  qed
next
  case (2 limit count m r c)
  then show ?case by simp
next
  case (3 limit count m r c v vs)
  from "3.prems"(7) have v0: "v \<noteq> 0" and vs0: "0 \<notin> set vs" by auto
  from "3.prems"(8) have v9: "v \<le> 9" and vs9: "\<forall>v \<in> set vs. v \<le> 9" by auto
  from "3.prems"(9) have vnew: "v \<notin> set vs" and dist: "distinct vs" by auto
  let ?A = "{s \<in> completions m. cellAt s r c = Some v}"
  let ?B = "{s \<in> completions m. \<exists>w \<in> set vs. cellAt s r c = Some w}"
  note split = card_split_digit[OF vnew, of m r c]
  show ?case
  proof (cases "isValidPlacement m r c v")
    case False
    note IH = "3.IH"(1)[OF False "3.prems"(1,2,3,4,5,6) vs0 vs9 dist]
    have "?A = {}" using "3.prems"(4,5) v0 False by (rule completions_invalid_placement)
    then have "card ?A = 0" by (simp only: card.empty)
    with split have "card {s \<in> completions m. \<exists>w \<in> set (v # vs). cellAt s r c = Some w} = card ?B"
      by simp
    moreover have "countBacktrack_loop limit count m r c (v # vs)
                     = countBacktrack_loop limit count m r c vs"
      using False by simp
    ultimately show ?thesis using IH by simp
  next
    case True
    let ?m1 = "setCell m r c v"
    have wf1: "wf_board ?m1" using "3.prems"(1) v9 by (rule wf_setCell)
    have valid1: "valid_board ?m1"
      using "3.prems"(1,2,4,5,6) v0 True by (rule placement_preserves_valid)
    have comp1: "completions ?m1 = ?A"
      using "3.prems"(4,5,6) v0 by (rule completions_setCell)
    from True have nn: "\<not> \<not> isValidPlacement m r c v" by simp
    obtain k y where res: "countBacktrack limit count ?m1 = (k, y)"
      by (cases "countBacktrack limit count ?m1")
    from "3.IH"(2)[OF nn wf1 valid1 "3.prems"(3)] res comp1
    have k: "k = min limit (count + int (card ?A))" and y: "k < limit \<longrightarrow> y = ?m1"
      by simp_all
    show ?thesis
    proof (cases "k \<ge> limit")
      case True
      with k have "limit \<le> count + int (card ?A)" and "k = limit" by simp_all
      moreover have "countBacktrack_loop limit count m r c (v # vs) = (k, y)"
        using \<open>isValidPlacement m r c v\<close> res True by simp
      ultimately show ?thesis using split by simp
    next
      case False
      with y have y1: "y = ?m1" by simp
      from "3.prems"(6) have undo: "setCell y r c 0 = m" unfolding y1 by (simp add: setCell_same)
      from False k have k2: "k = count + int (card ?A)" and kle: "k \<le> limit" by simp_all
      note ih = "3.IH"(3)[OF nn res[symmetric] False, unfolded undo]
      note IH2 = ih[OF "3.prems"(1,2) kle "3.prems"(4,5,6) vs0 vs9 dist]
      have eq: "countBacktrack_loop limit count m r c (v # vs)
                  = countBacktrack_loop limit k m r c vs"
        using \<open>isValidPlacement m r c v\<close> res False undo by simp
      show ?thesis unfolding eq using IH2 split k2 by simp
    qed
  qed
qed

lemma cloneBoard_id [simp]: "cloneBoard b = b"
  by (simp add: cloneBoard_def)

lemma freezeBoard_id [simp]: "freezeBoard b = b"
  by (simp add: freezeBoard_def)

lemma completion_of_full:
  assumes wf: "wf_board m" and full: "full_board m" and s: "s \<in> completions m"
  shows "s = m"
proof -
  from s have swf: "wf_board s" and comp: "completes m s"
    by (simp_all add: completions_def solved_board_def)
  show ?thesis
  proof (rule wf_board_ext[OF swf wf])
    fix r c assume r: "r < GRID_SIZE" and c: "c < GRID_SIZE"
    from completesD[OF comp r c full_boardD[OF full r c]]
    show "cellAt s r c = cellAt m r c" .
  qed
qed

lemma completions_full_unsolved:
  assumes "wf_board m" "full_board m" "\<not> solved_board m"
  shows "completions m = {}"
proof (rule ccontr)
  assume "completions m \<noteq> {}"
  then obtain s where s: "s \<in> completions m" by blast
  from completion_of_full[OF assms(1,2) s] s assms(3) show False
    by (simp add: completions_def)
qed

lemma solve_correct:
  assumes "wf_board board" "valid_board board"
  shows "case solve board of Some s \<Rightarrow> s \<in> completions board | None \<Rightarrow> completions board = {}"
  using solveBacktrack_correct(1)[OF assms]
  by (auto simp: solve_def split: prod.splits bool.splits)

lemma countSolutions_correct:
  assumes "wf_board board" "valid_board board" "0 \<le> limit"
  shows "countSolutions board limit = min limit (int (card (completions board)))"
  using countBacktrack_correct(1)[OF assms] by (simp add: countSolutions_def)

lemma conflicting_facts:
  "wf_board conflictingFullBoard"
  "full_board conflictingFullBoard"
  "\<not> isBoardComplete conflictingFullBoard"
  by code_simp+

lemma classic_facts:
  "wf_board classicSolution"
  "isBoardComplete classicSolution"
  "completes classicPuzzle classicSolution"
  by code_simp+

lemma conflicting_no_completion: "completions conflictingFullBoard = {}"
proof -
  have "\<not> solved_board conflictingFullBoard"
    using conflicting_facts(1,3) by (simp add: isBoardComplete_iff)
  with conflicting_facts(1,2) show ?thesis by (rule completions_full_unsolved)
qed

section \<open>The generator\<close>

lemma shuffled_digits:
  assumes "shuffle g [1, 2, 3, 4, 5, 6, 7, 8, 9 :: nat] = (g', digits)"
  shows "set digits = {1, 2, 3, 4, 5, 6, 7, 8, 9}"
  using shuffle_set[of g "[1, 2, 3, 4, 5, 6, 7, 8, 9 :: nat]"] assms by simp

text \<open>
  What a call of the grid filler returns on a well-formed valid board, whatever numbers
  are drawn: a completion, or the board untouched when there is none.
\<close>

lemma fillCompleteGrid_correct:
  "wf_board m \<Longrightarrow> valid_board m \<Longrightarrow>
     (case fillCompleteGrid g m of
        (True, g', s) \<Rightarrow> s \<in> completions m
      | (False, g', m') \<Rightarrow> m' = m \<and> completions m = {})"
  "wf_board m \<Longrightarrow> valid_board m \<Longrightarrow> r < GRID_SIZE \<Longrightarrow> c < GRID_SIZE \<Longrightarrow>
   cellAt m r c = Some 0 \<Longrightarrow> 0 \<notin> set vs \<Longrightarrow> (\<forall>v \<in> set vs. v \<le> 9) \<Longrightarrow>
     (case fillCompleteGrid_loop g m r c vs of
        (True, g', s) \<Rightarrow> s \<in> completions m
      | (False, g', m') \<Rightarrow>
          m' = m \<and> (\<forall>s \<in> completions m. \<forall>v \<in> set vs. cellAt s r c \<noteq> Some v))"
proof (induction g m and g m r c vs rule: fillCompleteGrid_fillCompleteGrid_loop.induct)
  case (1 g m)
  show ?case
  proof (cases "findEmptyCell m")
    case None
    then have "full_board m" by (simp add: findEmptyCell_None)
    with "1.prems" have "completions m = {m}" by (intro completions_full)
    with None show ?thesis by simp
  next
    case (Some p)
    note rng = findEmptyCell_range[OF Some] and empty = findEmptyCell_Some[OF Some]
    obtain g1 digits where sh: "shuffle g [1, 2, 3, 4, 5, 6, 7, 8, 9 :: nat] = (g1, digits)"
      by (cases "shuffle g [1, 2, 3, 4, 5, 6, 7, 8, 9 :: nat]")
    note ds = shuffled_digits[OF sh]
    let ?res = "fillCompleteGrid_loop g1 m (row p) (col p) digits"
    have IH: "case ?res of
        (True, g', s) \<Rightarrow> s \<in> completions m
      | (False, g', m') \<Rightarrow> m' = m \<and> (\<forall>s \<in> completions m.
           \<forall>v \<in> set digits. cellAt s (row p) (col p) \<noteq> Some v)"
      using rng empty ds by (intro "1.IH"[OF Some sh[symmetric] "1.prems"]) auto
    have eq: "fillCompleteGrid g m = ?res" using Some sh by simp
    show ?thesis
    proof (cases ?res)
      case (fields ok g2 y)
      show ?thesis
      proof (cases ok)
        case True
        with IH fields eq show ?thesis by simp
      next
        case False
        with IH fields have y: "y = m" and none: "\<forall>s \<in> completions m.
           \<forall>v \<in> set digits. cellAt s (row p) (col p) \<noteq> Some v"
          by simp_all
        have "completions m = {}"
        proof (rule ccontr)
          assume "completions m \<noteq> {}"
          then obtain s where s: "s \<in> completions m" by blast
          from completion_cell[OF s] rng obtain v where
            v: "cellAt s (row p) (col p) = Some v" "v \<noteq> 0" "v \<le> 9" by blast
          then have "v \<in> set digits" unfolding ds by simp arith
          with none s v(1) show False by blast
        qed
        with False fields eq y show ?thesis by simp
      qed
    qed
  qed
next
  case (2 g m r c)
  then show ?case by simp
next
  case (3 g m r c v vs)
  from "3.prems"(6) have v0: "v \<noteq> 0" and vs0: "0 \<notin> set vs" by auto
  from "3.prems"(7) have v9: "v \<le> 9" and vs9: "\<forall>v \<in> set vs. v \<le> 9" by auto
  show ?case
  proof (cases "isValidPlacement m r c v")
    case False
    from "3.IH"(1)[OF False "3.prems"(1,2,3,4,5) vs0 vs9]
    have IH: "case fillCompleteGrid_loop g m r c vs of
        (True, g', s) \<Rightarrow> s \<in> completions m
      | (False, g', m') \<Rightarrow>
          m' = m \<and> (\<forall>s \<in> completions m. \<forall>v \<in> set vs. cellAt s r c \<noteq> Some v)" .
    from completions_invalid_placement[OF "3.prems"(3,4) v0 False]
    have nov: "\<forall>s \<in> completions m. cellAt s r c \<noteq> Some v" by blast
    have eq: "fillCompleteGrid_loop g m r c (v # vs) = fillCompleteGrid_loop g m r c vs"
      using False by simp
    show ?thesis
      unfolding eq using IH nov by (auto split: prod.splits bool.splits)
  next
    case True
    let ?m1 = "setCell m r c v"
    have wf1: "wf_board ?m1" using "3.prems"(1) v9 by (rule wf_setCell)
    have valid1: "valid_board ?m1"
      using "3.prems"(1,2,3,4,5) v0 True by (rule placement_preserves_valid)
    have comp1: "completions ?m1 = {s \<in> completions m. cellAt s r c = Some v}"
      using "3.prems"(3,4,5) v0 by (rule completions_setCell)
    from True have nn: "\<not> \<not> isValidPlacement m r c v" by simp
    from "3.IH"(2)[OF nn wf1 valid1]
    have IH1: "case fillCompleteGrid g ?m1 of
        (True, g', s) \<Rightarrow> s \<in> completions ?m1
      | (False, g', m') \<Rightarrow> m' = ?m1 \<and> completions ?m1 = {}" .
    obtain ok g1 y where res: "fillCompleteGrid g ?m1 = (ok, g1, y)"
      by (cases "fillCompleteGrid g ?m1")
    show ?thesis
    proof (cases ok)
      case True
      with IH1 res comp1 have "y \<in> completions m" by simp
      with True res \<open>isValidPlacement m r c v\<close> show ?thesis by simp
    next
      case False
      with IH1 res have y: "y = ?m1" and none1: "completions ?m1 = {}" by simp_all
      from "3.prems"(5) have undo: "setCell y r c 0 = m" unfolding y by (simp add: setCell_same)
      from none1 comp1 have nov: "\<forall>s \<in> completions m. cellAt s r c \<noteq> Some v" by blast
      from False have okF: "ok = False" by simp
      note ih = "3.IH"(3)[OF nn res[symmetric] okF refl, unfolded undo]
      from ih[OF "3.prems"(1,2,3,4,5) vs0 vs9]
      have IH2: "case fillCompleteGrid_loop g1 m r c vs of
        (True, g', s) \<Rightarrow> s \<in> completions m
      | (False, g', m') \<Rightarrow>
          m' = m \<and> (\<forall>s \<in> completions m. \<forall>v \<in> set vs. cellAt s r c \<noteq> Some v)" .
      have eq: "fillCompleteGrid_loop g m r c (v # vs) = fillCompleteGrid_loop g1 m r c vs"
        using \<open>isValidPlacement m r c v\<close> res False undo by simp
      show ?thesis
        unfolding eq using IH2 nov by (auto split: prod.splits bool.splits)
    qed
  qed
qed

lemma empty_facts:
  "wf_board createEmptyBoard"
  "isValidPartialBoard createEmptyBoard"
  "completes createEmptyBoard classicSolution"
  by code_simp+

lemma fill_empty_succeeds:
  "fst (fillCompleteGrid g createEmptyBoard)
     \<and> solved_board (snd (snd (fillCompleteGrid g createEmptyBoard)))"
proof -
  have valid: "valid_board createEmptyBoard"
    using empty_facts(1,2) by (simp add: isValidPartialBoard_iff)
  have "solved_board classicSolution"
    using classic_facts(1,2) by (simp add: isBoardComplete_iff)
  with empty_facts(3) have ne: "classicSolution \<in> completions createEmptyBoard"
    by (simp add: completions_def)
  obtain ok g' s where res: "fillCompleteGrid g createEmptyBoard = (ok, g', s)"
    by (cases "fillCompleteGrid g createEmptyBoard")
  from fillCompleteGrid_correct(1)[OF empty_facts(1) valid, of g] res ne
  have "ok \<and> s \<in> completions createEmptyBoard" by (cases ok) auto
  with res show ?thesis by (simp add: completions_def)
qed

lemma generateFullGrid_solved: "solved_board (snd (generateFullGrid g))"
proof -
  obtain ok g' s where res: "fillCompleteGrid g createEmptyBoard = (ok, g', s)"
    by (cases "fillCompleteGrid g createEmptyBoard")
  with fill_empty_succeeds[of g] have "solved_board s" by (simp del: fillCompleteGrid.simps)
  with res show ?thesis by (simp add: generateFullGrid_def del: fillCompleteGrid.simps)
qed

lemma completes_clear:
  assumes "completes board s"
  shows "completes (setCell board r c 0) s"
  unfolding completes_def
proof (intro ballI)
  fix r' c' assume "r' \<in> set [0..<GRID_SIZE]" "c' \<in> set [0..<GRID_SIZE]"
  then have r': "r' < GRID_SIZE" and c': "c' < GRID_SIZE" by simp_all
  show "cellAt (setCell board r c 0) r' c' = Some 0
          \<or> cellAt s r' c' = cellAt (setCell board r c 0) r' c'"
  proof (cases "cellAt (setCell board r c 0) r' c' = cellAt board r' c'")
    case True
    with assms r' c' show ?thesis unfolding completes_def by force
  next
    case False
    then show ?thesis by (auto simp: cellAt_setCell split: if_splits)
  qed
qed

lemma removeCells_loop_invariant:
  assumes "wf_board board" "completes board s" "countSolutions board 2 = 1"
  shows "wf_board (fst (removeCells_loop t ps board n))
       \<and> completes (fst (removeCells_loop t ps board n)) s
       \<and> countSolutions (fst (removeCells_loop t ps board n)) 2 = 1"
  using assms
proof (induction ps arbitrary: board n)
  case Nil
  then show ?case by simp
next
  case (Cons p ps)
  show ?case
  proof (cases "n \<le> t")
    case True
    with Cons.prems show ?thesis by simp
  next
    case False
    show ?thesis
    proof (cases "cellAt board (row p) (col p)")
      case None
      with False Cons.IH[OF Cons.prems] show ?thesis by simp
    next
      case (Some v)
      let ?b1 = "setCell board (row p) (col p) 0"
      have wf1: "wf_board ?b1" using Cons.prems(1) by (intro wf_setCell) simp_all
      have comp1: "completes ?b1 s" using Cons.prems(2) by (rule completes_clear)
      show ?thesis
      proof (cases "countSolutions ?b1 2 = 1")
        case True
        with False Some Cons.IH[OF wf1 comp1 True] show ?thesis by (simp add: Let_def)
      next
        case no: False
        have "setCell ?b1 (row p) (col p) v = board" using Some by (simp add: setCell_same)
        with False Some no Cons.IH[OF Cons.prems] show ?thesis by (simp add: Let_def)
      qed
    qed
  qed
qed

lemma sub_board_valid:
  assumes wf: "wf_board p" and comp: "completes p s" and solved: "solved_board s"
  shows "valid_board p"
proof (rule valid_boardI)
  fix r c r' c'
  assume r: "r < GRID_SIZE" and c: "c < GRID_SIZE" and r': "r' < GRID_SIZE" and c': "c' < GRID_SIZE"
    and ne: "r' \<noteq> r \<or> c' \<noteq> c" and su: "sameUnit r c r' c'" and nz: "cellAt p r c \<noteq> Some 0"
  from solved have valid: "valid_board s" by (simp add: solved_board_def)
  from completesD[OF comp r c nz] have eq: "cellAt s r c = cellAt p r c" .
  show "cellAt p r' c' \<noteq> cellAt p r c"
  proof
    assume same: "cellAt p r' c' = cellAt p r c"
    with nz have "cellAt p r' c' \<noteq> Some 0" by simp
    from completesD[OF comp r' c' this] same eq have "cellAt s r' c' = cellAt s r c" by simp
    moreover from eq nz have "cellAt s r c \<noteq> Some 0" by simp
    ultimately show False using valid_boardD[OF valid r c r' c' ne su] by simp
  qed
qed

lemma countSolutions_solved:
  assumes "solved_board s"
  shows "countSolutions s 2 = 1"
proof -
  from assms have wf: "wf_board s" and full: "full_board s" and valid: "valid_board s"
    by (simp_all add: solved_board_def)
  from completions_full[OF wf valid full] countSolutions_correct[OF wf valid, of 2]
  show ?thesis by simp
qed

text \<open>The facts about a generated pair from which the claims follow.\<close>

lemma generatePuzzle_facts:
  assumes "snd (generatePuzzle g d) = gp"
  shows "solved_board (solution gp)"
    and "wf_board (puzzle gp)"
    and "completes (puzzle gp) (solution gp)"
    and "countSolutions (puzzle gp) 2 = 1"
proof -
  obtain g1 s where full: "generateFullGrid g = (g1, s)" by (cases "generateFullGrid g")
  with generateFullGrid_solved[of g] have solved: "solved_board s" by simp
  then have wf: "wf_board s" by (simp add: solved_board_def)
  have comp: "completes s s" by (simp add: completes_def)
  obtain g2 ps where sh: "shuffle g1 allPositions = (g2, ps)"
    by (cases "shuffle g1 allPositions")
  let ?p = "fst (removeCells_loop (GIVENS_BY_DIFFICULTY d) ps s (GRID_SIZE * GRID_SIZE))"
  from assms full sh have gp: "gp = \<lparr>puzzle = ?p, solution = s\<rparr>"
    by (simp add: generatePuzzle_def removeCellsKeepingUniqueSolution_def Let_def)
  note inv = removeCells_loop_invariant[OF wf comp countSolutions_solved[OF solved],
      of "GIVENS_BY_DIFFICULTY d" ps "GRID_SIZE * GRID_SIZE"]
  from solved gp show "solved_board (solution gp)" by simp
  from inv gp show "wf_board (puzzle gp)" by simp
  from inv gp show "completes (puzzle gp) (solution gp)" by simp
  from inv gp show "countSolutions (puzzle gp) 2 = 1" by simp
qed

lemma unique_completion:
  assumes wf: "wf_board p" and comp: "completes p s" and solved: "solved_board s"
    and one: "countSolutions p 2 = 1"
  shows "completions p = {s}"
proof -
  have valid: "valid_board p" using wf comp solved by (rule sub_board_valid)
  from countSolutions_correct[OF wf valid, of 2] one
  have "card (completions p) = 1" by (simp add: min_def split: if_splits)
  then obtain x where x: "completions p = {x}" by (rule card_1_singletonE)
  moreover from comp solved have "s \<in> completions p" by (simp add: completions_def)
  ultimately show ?thesis by simp
qed

section \<open>The shape check\<close>

lemma half_not_nat: "rat_of_nat v \<noteq> 1 / 2"
proof
  assume "rat_of_nat v = 1 / 2"
  then have "rat_of_nat (2 * v) = rat_of_nat 1" by simp
  then have "2 * v = 1" by (simp only: of_nat_eq_iff)
  then show False by arith
qed

lemma cellPasses_nat: "v \<le> 9 \<Longrightarrow> cellPasses (JNumber (of_nat v))"
  by (simp add: not_less)

lemma isValidBoardShape_encode:
  assumes "wf_board b"
  shows "isValidBoardShape (encodeBoard b)"
proof -
  have "\<And>cells. cells \<in> set b \<Longrightarrow> rowPasses (JArray (map (\<lambda>v. JNumber (of_nat v)) cells))"
  proof -
    fix cells assume "cells \<in> set b"
    with assms have "length cells = GRID_SIZE" "\<forall>v \<in> set cells. v \<le> 9"
      by (auto simp: wf_board_def list_all_iff)
    then show "rowPasses (JArray (map (\<lambda>v. JNumber (of_nat v)) cells))"
      by (simp add: list_all_iff cellPasses_nat del: cellPasses.simps)
  qed
  moreover from assms have "length b = GRID_SIZE" by (simp add: wf_board_def)
  ultimately show ?thesis by (simp add: encodeBoard_def list_all_iff)
qed

section \<open>Backtracking on any board\<close>

text \<open>A failed call of the solver leaves the board as it found it.\<close>

lemma solveBacktrack_restores:
  "\<not> fst (solveBacktrack m) \<Longrightarrow> snd (solveBacktrack m) = m"
  "\<not> fst (solveBacktrack_loop m r c vs) \<Longrightarrow>
     snd (solveBacktrack_loop m r c vs) = m \<or> snd (solveBacktrack_loop m r c vs) = setCell m r c 0"
proof (induction m and m r c vs rule: solveBacktrack_solveBacktrack_loop.induct)
  case (1 m)
  show ?case
  proof (cases "findEmptyCell m")
    case None
    with 1 show ?thesis by simp
  next
    case (Some p)
    from findEmptyCell_Some[OF Some] have "setCell m (row p) (col p) 0 = m"
      by (rule setCell_same)
    with 1 Some show ?thesis by auto
  qed
next
  case (2 m r c)
  then show ?case by simp
next
  case (3 m r c v vs)
  show ?case
  proof (cases "isValidPlacement m r c v")
    case False
    with 3 show ?thesis by simp
  next
    case True
    then have nn: "\<not> \<not> isValidPlacement m r c v" by simp
    obtain ok y where res: "solveBacktrack (setCell m r c v) = (ok, y)"
      by (cases "solveBacktrack (setCell m r c v)")
    show ?thesis
    proof (cases ok)
      case True
      with "3.prems" \<open>isValidPlacement m r c v\<close> res show ?thesis by simp
    next
      case False
      with "3.IH"(2)[OF nn] res have y: "y = setCell m r c v" by simp
      from True res False
      have eq: "solveBacktrack_loop m r c (v # vs) = solveBacktrack_loop (setCell m r c 0) r c vs"
        by (simp add: y)
      from False have okF: "ok = False" by simp
      from "3.IH"(3)[OF nn res[symmetric] okF] "3.prems" eq y
      show ?thesis by auto
    qed
  qed
qed

lemma completes_fill:
  assumes comp: "completes (setCell m r c v) s" and empty: "cellAt m r c = Some 0"
  shows "completes m s"
  unfolding completes_def
proof (intro ballI)
  fix r' c' assume "r' \<in> set [0..<GRID_SIZE]" "c' \<in> set [0..<GRID_SIZE]"
  then have r': "r' < GRID_SIZE" and c': "c' < GRID_SIZE" by simp_all
  show "cellAt m r' c' = Some 0 \<or> cellAt s r' c' = cellAt m r' c'"
  proof (cases "r' = r \<and> c' = c")
    case True
    with empty show ?thesis by simp
  next
    case False
    then have "cellAt (setCell m r c v) r' c' = cellAt m r' c'"
      by (intro cellAt_setCell_other) simp
    with comp r' c' show ?thesis unfolding completes_def by force
  qed
qed

text \<open>
  On any well-formed board, valid or not, a successful call of the solver leaves a full
  board that agrees with the input on every filled cell.
\<close>

lemma solveBacktrack_fills:
  "wf_board m \<Longrightarrow> fst (solveBacktrack m) \<Longrightarrow>
     wf_board (snd (solveBacktrack m)) \<and> full_board (snd (solveBacktrack m))
     \<and> completes m (snd (solveBacktrack m))"
  "wf_board m \<Longrightarrow> cellAt m r c = Some 0 \<Longrightarrow> (\<forall>v \<in> set vs. v \<le> 9) \<Longrightarrow>
   fst (solveBacktrack_loop m r c vs) \<Longrightarrow>
     wf_board (snd (solveBacktrack_loop m r c vs)) \<and> full_board (snd (solveBacktrack_loop m r c vs))
     \<and> completes m (snd (solveBacktrack_loop m r c vs))"
proof (induction m and m r c vs rule: solveBacktrack_solveBacktrack_loop.induct)
  case (1 m)
  show ?case
  proof (cases "findEmptyCell m")
    case None
    then have "full_board m" by (simp add: findEmptyCell_None)
    moreover have "completes m m" by (simp add: completes_def)
    ultimately show ?thesis using None "1.prems" by simp
  next
    case (Some p)
    have eq: "solveBacktrack m = solveBacktrack_loop m (row p) (col p) [1, 2, 3, 4, 5, 6, 7, 8, 9]"
      using Some by simp
    have nine: "\<forall>v \<in> set [1, 2, 3, 4, 5, 6, 7, 8, 9 :: nat]. v \<le> 9" by simp
    from "1.IH"[OF Some "1.prems"(1) findEmptyCell_Some[OF Some] nine] "1.prems"(2)
    show ?thesis unfolding eq by simp
  qed
next
  case (2 m r c)
  then show ?case by simp
next
  case (3 m r c v vs)
  from "3.prems"(3) have v9: "v \<le> 9" and vs9: "\<forall>v \<in> set vs. v \<le> 9" by auto
  show ?case
  proof (cases "isValidPlacement m r c v")
    case False
    then have eq: "solveBacktrack_loop m r c (v # vs) = solveBacktrack_loop m r c vs" by simp
    from "3.IH"(1)[OF False "3.prems"(1,2) vs9] "3.prems"(4)
    show ?thesis unfolding eq by simp
  next
    case True
    then have nn: "\<not> \<not> isValidPlacement m r c v" by simp
    let ?m1 = "setCell m r c v"
    have wf1: "wf_board ?m1" using "3.prems"(1) v9 by (rule wf_setCell)
    obtain ok y where res: "solveBacktrack ?m1 = (ok, y)" by (cases "solveBacktrack ?m1")
    show ?thesis
    proof (cases ok)
      case True
      with "3.IH"(2)[OF nn wf1] res
      have "wf_board y" "full_board y" "completes ?m1 y" by simp_all
      moreover from this(3) "3.prems"(2) have "completes m y" by (rule completes_fill)
      moreover have "solveBacktrack_loop m r c (v # vs) = (True, y)"
        using \<open>isValidPlacement m r c v\<close> res True by simp
      ultimately show ?thesis by simp
    next
      case False
      from solveBacktrack_restores(1)[of ?m1] res False have y: "y = ?m1" by simp
      have undo: "setCell y r c 0 = m" unfolding y using "3.prems"(2) by (simp add: setCell_same)
      from False have okF: "ok = False" by simp
      have eq: "solveBacktrack_loop m r c (v # vs) = solveBacktrack_loop m r c vs"
        using \<open>isValidPlacement m r c v\<close> res False undo by simp
      note ih = "3.IH"(3)[OF nn res[symmetric] okF, unfolded undo]
      from ih[OF "3.prems"(1,2) vs9] "3.prems"(4) show ?thesis unfolding eq by simp
    qed
  qed
qed

text \<open>The counter never passes the limit, on any board.\<close>

lemma countBacktrack_le_limit:
  "count \<le> limit \<Longrightarrow> fst (countBacktrack limit count m) \<le> limit"
  "count \<le> limit \<Longrightarrow> fst (countBacktrack_loop limit count m r c vs) \<le> limit"
proof (induction limit count m and limit count m r c vs
       rule: countBacktrack_countBacktrack_loop.induct)
  case (1 limit count m)
  show ?case
  proof (cases "count \<ge> limit")
    case True
    with "1.prems" show ?thesis by simp
  next
    case False
    show ?thesis
    proof (cases "findEmptyCell m")
      case None
      with False show ?thesis by simp
    next
      case (Some p)
      with False "1.IH"[OF False Some "1.prems"] show ?thesis by simp
    qed
  qed
next
  case (2 limit count m r c)
  then show ?case by simp
next
  case (3 limit count m r c v vs)
  show ?case
  proof (cases "isValidPlacement m r c v")
    case False
    with "3.IH"(1)[OF False "3.prems"] show ?thesis by simp
  next
    case True
    then have nn: "\<not> \<not> isValidPlacement m r c v" by simp
    obtain k y where res: "countBacktrack limit count (setCell m r c v) = (k, y)"
      by (cases "countBacktrack limit count (setCell m r c v)")
    from "3.IH"(2)[OF nn "3.prems"] res have k: "k \<le> limit" by simp
    show ?thesis
    proof (cases "k \<ge> limit")
      case True
      with \<open>isValidPlacement m r c v\<close> res k show ?thesis by simp
    next
      case False
      from "3.IH"(3)[OF nn res[symmetric] False k]
      have "fst (countBacktrack_loop limit k (setCell y r c 0) r c vs) \<le> limit" .
      with \<open>isValidPlacement m r c v\<close> res False show ?thesis by simp
    qed
  qed
qed

subsection \<open>Where the filled cells are free of conflicts\<close>

text \<open>
  On every board of the documented shape, a board that \<open>solve\<close> returns is full and agrees
  with the input on every filled cell. When the filled cells of the input are free of
  conflicts, the returned board is solved, and \<open>solve\<close> returns null exactly when the input
  has no valid completion.
\<close>

lemma solve_conflict_free:
  assumes "wf_board board"
  shows "(\<forall>s. solve board = Some s \<longrightarrow> wf_board s \<and> full_board s \<and> completes board s)
       \<and> (isValidPartialBoard board \<longrightarrow>
            (solve board = None) = (completions board = {})
            \<and> (\<forall>s. solve board = Some s \<longrightarrow> solved_board s \<and> isBoardComplete s))"
proof
  show "\<forall>s. solve board = Some s \<longrightarrow> wf_board s \<and> full_board s \<and> completes board s"
  proof (intro allI impI)
    fix s assume "solve board = Some s"
    then have "fst (solveBacktrack board)" "s = snd (solveBacktrack board)"
      by (auto simp: solve_def split: prod.splits bool.splits)
    with solveBacktrack_fills(1)[OF assms]
    show "wf_board s \<and> full_board s \<and> completes board s" by simp
  qed
next
  show "isValidPartialBoard board \<longrightarrow>
            (solve board = None) = (completions board = {})
            \<and> (\<forall>s. solve board = Some s \<longrightarrow> solved_board s \<and> isBoardComplete s)"
  proof
    assume "isValidPartialBoard board"
    with assms have valid: "valid_board board" by (simp add: isValidPartialBoard_iff)
    note c = solve_correct[OF assms valid]
    show "(solve board = None) = (completions board = {})
            \<and> (\<forall>s. solve board = Some s \<longrightarrow> solved_board s \<and> isBoardComplete s)"
    proof (cases "solve board")
      case None
      with c show ?thesis by simp
    next
      case (Some s)
      with c have s: "s \<in> completions board" by simp
      then have "solved_board s" by (simp add: completions_def)
      moreover from this have "isBoardComplete s"
        by (simp add: isBoardComplete_iff solved_board_def)
      ultimately show ?thesis using Some s by auto
    qed
  qed
qed

lemma solve_conflict_free_example:
  "wf_board classicPuzzle \<and> isValidPartialBoard classicPuzzle
    \<and> (\<exists>s. solve classicPuzzle = Some s
           \<and> wf_board s \<and> full_board s \<and> completes classicPuzzle s
           \<and> solved_board s \<and> isBoardComplete s)"
proof -
  have wf: "wf_board classicPuzzle" by code_simp
  have ok: "isValidPartialBoard classicPuzzle" by code_simp
  have "solved_board classicSolution"
    using classic_facts(1,2) by (simp add: isBoardComplete_iff)
  with classic_facts(3) have "classicSolution \<in> completions classicPuzzle"
    by (simp add: completions_def)
  then have "completions classicPuzzle \<noteq> {}" by blast
  with solve_conflict_free[OF wf] ok obtain s where "solve classicPuzzle = Some s"
    by (cases "solve classicPuzzle") auto
  with solve_conflict_free[OF wf] wf ok show ?thesis by blast
qed

text \<open>
  For a limit that is not negative, \<open>countSolutions\<close> never returns more than the limit; on a
  board of the documented shape whose filled cells are free of conflicts it returns the
  number of valid completions or the limit, whichever is smaller.
\<close>

lemma countSolutions_conflict_free:
  assumes "0 \<le> limit"
  shows "countSolutions board limit \<le> limit
       \<and> (wf_board board \<and> isValidPartialBoard board \<longrightarrow>
            countSolutions board limit = min (int (card (completions board))) limit)"
proof
  show "countSolutions board limit \<le> limit"
    using countBacktrack_le_limit(1)[OF assms] by (simp add: countSolutions_def)
next
  show "wf_board board \<and> isValidPartialBoard board \<longrightarrow>
            countSolutions board limit = min (int (card (completions board))) limit"
  proof
    assume a: "wf_board board \<and> isValidPartialBoard board"
    then have wf: "wf_board board" and ok: "isValidPartialBoard board" by simp_all
    then have valid: "valid_board board" by (simp add: isValidPartialBoard_iff)
    from countSolutions_correct[OF wf valid assms]
    show "countSolutions board limit = min (int (card (completions board))) limit" by simp
  qed
qed

lemma countSolutions_conflict_free_example:
  "(0::int) \<le> 2 \<and> wf_board classicPuzzle \<and> isValidPartialBoard classicPuzzle
    \<and> countSolutions classicPuzzle 2 \<le> 2
    \<and> countSolutions classicPuzzle 2 = min (int (card (completions classicPuzzle))) 2"
proof -
  have wf: "wf_board classicPuzzle" by code_simp
  have ok: "isValidPartialBoard classicPuzzle" by code_simp
  have lim: "(0::int) \<le> 2" by simp
  from countSolutions_conflict_free[OF lim, of classicPuzzle] wf ok lim show ?thesis by blast
qed

section \<open>The heap model of solve\<close>

lemma frame_ok_refl: "lookup h m = Some (Rows refs) \<Longrightarrow> frame_ok refs m h h"
  by (simp add: frame_ok_def)

lemma frame_ok_trans: "frame_ok refs m h h' \<Longrightarrow> frame_ok refs m h' h'' \<Longrightarrow> frame_ok refs m h h''"
  by (simp add: frame_ok_def)

lemma frame_ok_lookup: "frame_ok refs m h h' \<Longrightarrow> lookup h' m = Some (Rows refs)"
  by (simp add: frame_ok_def)

lemma writeCell_frame:
  assumes "lookup h m = Some (Rows refs)"
  shows "frame_ok refs m h (writeCell h m r c v)"
proof (cases "r < length refs")
  case False
  with assms show ?thesis by (simp add: writeCell_def frame_ok_def)
next
  case True
  show ?thesis
  proof (cases "lookup h (refs ! r)")
    case None
    with assms True show ?thesis by (simp add: writeCell_def frame_ok_def)
  next
    case (Some obj)
    show ?thesis
    proof (cases obj)
      case (Rows x)
      with assms True Some show ?thesis by (simp add: writeCell_def frame_ok_def)
    next
      case (Cells cs)
      with assms Some have ne: "refs ! r \<noteq> m" by auto
      have w: "writeCell h m r c v = h[refs ! r := Cells (cs[c := v])]"
        using assms True Some Cells by (simp add: writeCell_def)
      from True have "refs ! r \<in> set refs" by simp
      then have "\<forall>a. a \<notin> set refs \<longrightarrow> h[refs ! r := Cells (cs[c := v])] ! a = h ! a"
        by (metis nth_list_update_neq)
      moreover have "lookup (h[refs ! r := Cells (cs[c := v])]) m = Some (Rows refs)"
        using assms ne by (auto simp: lookup_def split: if_splits)
      ultimately show ?thesis unfolding w by (simp add: frame_ok_def)
    qed
  qed
qed

lemma solveBacktrack_heap_frame:
  "lookup h m = Some (Rows refs) \<Longrightarrow> frame_ok refs m h (snd (solveBacktrack_heap depth h m))"
  "lookup h m = Some (Rows refs) \<Longrightarrow>
     frame_ok refs m h (snd (solveBacktrack_heap_loop depth h m r c vs))"
proof (induction depth h m and depth h m r c vs
       rule: solveBacktrack_heap_solveBacktrack_heap_loop.induct)
  case (1 h m)
  then show ?case by (simp add: frame_ok_refl)
next
  case (2 depth h m)
  then show ?case by (cases "findEmptyCell (loadBoard h m)") (simp_all add: frame_ok_refl)
next
  case (3 depth h m r c)
  then show ?case by (simp add: frame_ok_refl)
next
  case (4 depth h m r c v vs)
  show ?case
  proof (cases "isValidPlacement (loadBoard h m) r c v")
    case False
    with 4 show ?thesis by simp
  next
    case True
    then have nn: "\<not> \<not> isValidPlacement (loadBoard h m) r c v" by simp
    let ?h1 = "writeCell h m r c v"
    have f1: "frame_ok refs m h ?h1" using "4.prems" by (rule writeCell_frame)
    obtain res h2 where res: "solveBacktrack_heap depth ?h1 m = (res, h2)"
      by (cases "solveBacktrack_heap depth ?h1 m")
    from "4.IH"(2)[OF nn frame_ok_lookup[OF f1]] res have f2: "frame_ok refs m ?h1 h2" by simp
    note f12 = frame_ok_trans[OF f1 f2]
    show ?thesis
    proof (cases res)
      case None
      with True res f12 show ?thesis by simp
    next
      case (Some ok)
      show ?thesis
      proof (cases ok)
        case True
        with \<open>isValidPlacement (loadBoard h m) r c v\<close> res Some f12 show ?thesis by simp
      next
        case False
        let ?h3 = "writeCell h2 m r c 0"
        have f3: "frame_ok refs m h2 ?h3"
          using frame_ok_lookup[OF f2] by (rule writeCell_frame)
        from False have okF: "ok = False" by simp
        from "4.IH"(3)[OF nn res[symmetric] Some okF frame_ok_lookup[OF f3]]
        have f4: "frame_ok refs m ?h3 (snd (solveBacktrack_heap_loop depth ?h3 m r c vs))" .
        from True res Some False
        have "solveBacktrack_heap_loop depth h m r c (v # vs)
                = solveBacktrack_heap_loop depth ?h3 m r c vs" by simp
        with frame_ok_trans[OF frame_ok_trans[OF f12 f3] f4] show ?thesis by simp
      qed
    qed
  qed
qed

lemma cloneRows_fresh:
  "cloneRows h refs = (refs', h1) \<Longrightarrow>
     (\<exists>ext. h1 = h @ ext) \<and> (\<forall>a \<in> set refs'. length h \<le> a \<and> a < length h1)"
proof (induction refs arbitrary: h refs' h1)
  case Nil
  then show ?case by simp
next
  case (Cons a as)
  obtain as' h2 where rec: "cloneRows (h @ [Cells (cellsAt h a)]) as = (as', h2)"
    by (cases "cloneRows (h @ [Cells (cellsAt h a)]) as")
  with Cons.prems have eq: "refs' = length h # as'" "h1 = h2" by (simp_all add: alloc_def)
  from Cons.IH[OF rec] obtain ext where
    ext: "h2 = (h @ [Cells (cellsAt h a)]) @ ext"
    and fresh: "\<forall>x \<in> set as'. length (h @ [Cells (cellsAt h a)]) \<le> x \<and> x < length h2"
    by blast
  from ext have "h2 = h @ (Cells (cellsAt h a) # ext)" by simp
  moreover from ext have "length h < length h2" by simp
  ultimately show ?case using eq fresh by auto
qed

lemma cloneBoard_heap_fresh:
  assumes "cloneBoard_heap h b = (m, h1)"
  shows "(\<exists>ext. h1 = h @ ext) \<and> (\<exists>refs'. lookup h1 m = Some (Rows refs')
            \<and> (\<forall>a \<in> set refs'. length h \<le> a))"
proof (cases "\<exists>refs. lookup h b = Some (Rows refs)")
  case False
  with assms have "m = length h" "h1 = h @ [Rows []]"
    by (auto simp: cloneBoard_heap_def alloc_def split: option.splits jsarray.splits)
  then show ?thesis by (simp add: lookup_def)
next
  case True
  then obtain refs where refs: "lookup h b = Some (Rows refs)" by blast
  obtain refs' h0 where cr: "cloneRows h refs = (refs', h0)" by (cases "cloneRows h refs")
  with assms refs have m: "m = length h0" "h1 = h0 @ [Rows refs']"
    by (simp_all add: cloneBoard_heap_def alloc_def)
  from cloneRows_fresh[OF cr] obtain ext where "h0 = h @ ext"
    and "\<forall>a \<in> set refs'. length h \<le> a \<and> a < length h0" by blast
  with m show ?thesis by (auto simp: lookup_def)
qed

lemma solve_heap_frame:
  assumes "a < length h"
  shows "snd (solve_heap depth h board) ! a = h ! a"
proof -
  obtain m h1 where cl: "cloneBoard_heap h board = (m, h1)"
    by (cases "cloneBoard_heap h board")
  from cloneBoard_heap_fresh[OF cl] obtain ext refs' where
    ext: "h1 = h @ ext" and look: "lookup h1 m = Some (Rows refs')"
    and fresh: "\<forall>x \<in> set refs'. length h \<le> x" by blast
  from fresh assms have "a \<notin> set refs'" by auto
  with solveBacktrack_heap_frame(1)[OF look, of depth]
  have "snd (solveBacktrack_heap depth h1 m) ! a = h1 ! a" by (simp add: frame_ok_def)
  also have "h1 ! a = h ! a" using ext assms by (simp add: nth_append)
  finally have "snd (solveBacktrack_heap depth h1 m) ! a = h ! a" .
  moreover have "snd (solve_heap depth h board) = snd (solveBacktrack_heap depth h1 m)"
    using cl by (auto simp: solve_heap_def split: prod.splits option.splits bool.splits)
  ultimately show ?thesis by simp
qed

lemma cellsAt_update:
  assumes "a0 < length h"
  shows "cellsAt (h[a0 := Cells cs]) a = (if a = a0 then cs else cellsAt h a)"
  using assms by (auto simp: cellsAt_def lookup_def)

lemma writeCell_ok:
  assumes ok: "ok_board h m refs"
  shows "loadBoard (writeCell h m r c v) m = setCell (loadBoard h m) r c v"
    and "ok_board (writeCell h m r c v) m refs"
proof -
  from ok have look: "lookup h m = Some (Rows refs)" and dist: "distinct refs"
    and rows: "\<forall>a \<in> set refs. \<exists>cs. lookup h a = Some (Cells cs)"
    by (simp_all add: ok_board_def)
  have load: "loadBoard h m = map (cellsAt h) refs" using look by (simp add: loadBoard_def)
  show "loadBoard (writeCell h m r c v) m = setCell (loadBoard h m) r c v"
    and "ok_board (writeCell h m r c v) m refs"
  proof (atomize (full), cases "r < length refs")
    case False
    then have "writeCell h m r c v = h" using look by (simp add: writeCell_def)
    moreover have "setCell (loadBoard h m) r c v = loadBoard h m"
      using False load by (simp add: setCell_def list_update_beyond)
    ultimately show "loadBoard (writeCell h m r c v) m = setCell (loadBoard h m) r c v
        \<and> ok_board (writeCell h m r c v) m refs" using ok by simp
  next
    case True
    let ?a0 = "refs ! r"
    from True have a0in: "?a0 \<in> set refs" by simp
    with rows obtain cs where cs: "lookup h ?a0 = Some (Cells cs)" by blast
    then have a0: "?a0 < length h" by (simp add: lookup_def split: if_splits)
    from cs look have ne: "?a0 \<noteq> m" by auto
    let ?h' = "h[?a0 := Cells (cs[c := v])]"
    have w: "writeCell h m r c v = ?h'" using look True cs by (simp add: writeCell_def)
    have look': "lookup ?h' m = Some (Rows refs)"
      using look ne by (auto simp: lookup_def split: if_splits)
    have rows': "\<forall>a \<in> set refs. \<exists>cs'. lookup ?h' a = Some (Cells cs')"
    proof
      fix a assume "a \<in> set refs"
      with rows obtain ca where "lookup h a = Some (Cells ca)" by blast
      then show "\<exists>cs'. lookup ?h' a = Some (Cells cs')"
        by (cases "a = ?a0") (auto simp: lookup_def split: if_splits)
    qed
    have csa: "cellsAt h ?a0 = cs" using cs by (simp add: cellsAt_def)
    have "map (cellsAt ?h') refs = (map (cellsAt h) refs)[r := cs[c := v]]"
    proof (rule nth_equalityI)
      show "length (map (cellsAt ?h') refs) = length ((map (cellsAt h) refs)[r := cs[c := v]])"
        by simp
    next
      fix i assume "i < length (map (cellsAt ?h') refs)"
      then have i: "i < length refs" by simp
      have "(refs ! i = ?a0) = (i = r)" using dist i True by (simp add: nth_eq_iff_index_eq)
      with i show "map (cellsAt ?h') refs ! i = (map (cellsAt h) refs)[r := cs[c := v]] ! i"
        by (simp add: cellsAt_update[OF a0] nth_list_update)
    qed
    moreover have "setCell (map (cellsAt h) refs) r c v = (map (cellsAt h) refs)[r := cs[c := v]]"
      using True csa by (simp add: setCell_def)
    ultimately have "loadBoard ?h' m = setCell (loadBoard h m) r c v"
      using look' load by (simp add: loadBoard_def)
    with look' dist rows' show "loadBoard (writeCell h m r c v) m = setCell (loadBoard h m) r c v
        \<and> ok_board (writeCell h m r c v) m refs"
      unfolding w by (simp add: ok_board_def)
  qed
qed


lemma solveBacktrack_heap_simulates:
  "ok_board h m refs \<Longrightarrow> loadBoard h m = b \<Longrightarrow> emptyCount b < depth \<Longrightarrow>
     fst (solveBacktrack_heap depth h m) = Some (fst (solveBacktrack b))
     \<and> loadBoard (snd (solveBacktrack_heap depth h m)) m = snd (solveBacktrack b)
     \<and> ok_board (snd (solveBacktrack_heap depth h m)) m refs"
  "ok_board h m refs \<Longrightarrow> loadBoard h m = b \<Longrightarrow> cellAt b r c = Some 0 \<Longrightarrow> 0 \<notin> set vs \<Longrightarrow>
   emptyCount b \<le> depth \<Longrightarrow>
     fst (solveBacktrack_heap_loop depth h m r c vs) = Some (fst (solveBacktrack_loop b r c vs))
     \<and> loadBoard (snd (solveBacktrack_heap_loop depth h m r c vs)) m
          = snd (solveBacktrack_loop b r c vs)
     \<and> ok_board (snd (solveBacktrack_heap_loop depth h m r c vs)) m refs"
proof (induction b and b r c vs arbitrary: h depth and h depth
       rule: solveBacktrack_solveBacktrack_loop.induct)
  case (1 b)
  from "1.prems"(3) obtain d where depth: "depth = Suc d" by (cases depth) auto
  show ?case
  proof (cases "findEmptyCell b")
    case None
    with "1.prems" depth show ?thesis by simp
  next
    case (Some p)
    from "1.prems"(3) depth have le: "emptyCount b \<le> d" by simp
    have zero: "0 \<notin> set [1, 2, 3, 4, 5, 6, 7, 8, 9 :: nat]" by simp
    note IH = "1.IH"[OF Some "1.prems"(1,2) findEmptyCell_Some[OF Some] zero le]
    have "solveBacktrack_heap depth h m
            = solveBacktrack_heap_loop d h m (row p) (col p) [1, 2, 3, 4, 5, 6, 7, 8, 9]"
      using Some depth "1.prems"(2) by simp
    moreover have "solveBacktrack b = solveBacktrack_loop b (row p) (col p) [1, 2, 3, 4, 5, 6, 7, 8, 9]"
      using Some by simp
    ultimately show ?thesis using IH by simp
  qed
next
  case (2 b r c)
  then show ?case by simp
next
  case (3 b r c v vs)
  from "3.prems"(4) have v0: "v \<noteq> 0" and vs0: "0 \<notin> set vs" by auto
  show ?case
  proof (cases "isValidPlacement b r c v")
    case False
    note IH = "3.IH"(1)[OF False "3.prems"(1,2,3) vs0 "3.prems"(5)]
    have "solveBacktrack_heap_loop depth h m r c (v # vs) = solveBacktrack_heap_loop depth h m r c vs"
      using False "3.prems"(2) by simp
    moreover have "solveBacktrack_loop b r c (v # vs) = solveBacktrack_loop b r c vs"
      using False by simp
    ultimately show ?thesis using IH by simp
  next
    case True
    then have nn: "\<not> \<not> isValidPlacement b r c v" by simp
    let ?h1 = "writeCell h m r c v"
    let ?b1 = "setCell b r c v"
    have load1: "loadBoard ?h1 m = ?b1" and ok1: "ok_board ?h1 m refs"
      using writeCell_ok[OF "3.prems"(1), of r c v] "3.prems"(2) by simp_all
    have less: "emptyCount ?b1 < depth"
      using emptyCount_fill_less[OF "3.prems"(3) v0] "3.prems"(5) by simp
    note IH1 = "3.IH"(2)[OF nn ok1 load1 less]
    obtain ok y where res: "solveBacktrack ?b1 = (ok, y)" by (cases "solveBacktrack ?b1")
    obtain hres h2 where hr: "solveBacktrack_heap depth ?h1 m = (hres, h2)"
      by (cases "solveBacktrack_heap depth ?h1 m")
    from IH1 res hr have hres: "hres = Some ok" and load2: "loadBoard h2 m = y"
      and ok2: "ok_board h2 m refs" by simp_all
    show ?thesis
    proof (cases ok)
      case True
      have "solveBacktrack_heap_loop depth h m r c (v # vs) = (Some True, h2)"
        using \<open>isValidPlacement b r c v\<close> "3.prems"(2) hr hres True by simp
      moreover have "solveBacktrack_loop b r c (v # vs) = (True, y)"
        using \<open>isValidPlacement b r c v\<close> res True by simp
      ultimately show ?thesis using load2 ok2 by simp
    next
      case False
      from solveBacktrack_restores(1)[of ?b1] res False have y: "y = ?b1" by simp
      have undo: "setCell y r c 0 = b" unfolding y using "3.prems"(3) by (simp add: setCell_same)
      let ?h3 = "writeCell h2 m r c 0"
      have load3: "loadBoard ?h3 m = setCell y r c 0" and ok3: "ok_board ?h3 m refs"
        using writeCell_ok[OF ok2, of r c 0] load2 by simp_all
      from False have okF: "ok = False" by simp
      from "3.prems"(3,5) undo
      have c3: "cellAt (setCell y r c 0) r c = Some 0" and le3: "emptyCount (setCell y r c 0) \<le> depth"
        by simp_all
      note IH3 = "3.IH"(3)[OF nn res[symmetric] okF ok3 load3 c3 vs0 le3]
      have "solveBacktrack_heap_loop depth h m r c (v # vs)
              = solveBacktrack_heap_loop depth ?h3 m r c vs"
        using \<open>isValidPlacement b r c v\<close> "3.prems"(2) hr hres False by simp
      moreover have "solveBacktrack_loop b r c (v # vs)
              = solveBacktrack_loop (setCell y r c 0) r c vs"
        using \<open>isValidPlacement b r c v\<close> res False by simp
      ultimately show ?thesis using IH3 by simp
    qed
  qed
qed

lemma cellsAt_append: "a < length h \<Longrightarrow> cellsAt (h @ ext) a = cellsAt h a"
  by (simp add: cellsAt_def lookup_def nth_append)

lemma cloneRows_exact:
  "\<forall>a \<in> set refs. a < length h \<Longrightarrow>
     cloneRows h refs
       = ([length h ..< length h + length refs], h @ map (\<lambda>a. Cells (cellsAt h a)) refs)"
proof (induction refs arbitrary: h)
  case Nil
  then show ?case by simp
next
  case (Cons a as)
  let ?h1 = "h @ [Cells (cellsAt h a)]"
  from Cons.prems have valid1: "\<forall>x \<in> set as. x < length ?h1" by auto
  from Cons.prems have "map (\<lambda>x. Cells (cellsAt ?h1 x)) as = map (\<lambda>x. Cells (cellsAt h x)) as"
    by (simp add: cellsAt_append)
  with Cons.IH[OF valid1]
  have rec: "cloneRows ?h1 as
          = ([length ?h1 ..< length ?h1 + length as],
             ?h1 @ map (\<lambda>x. Cells (cellsAt h x)) as)" by (simp only:)
  have len: "length ?h1 = Suc (length h)" by simp
  have "[length h ..< Suc (length h + length as)]
          = length h # [Suc (length h) ..< Suc (length h + length as)]"
    by (rule upt_conv_Cons) simp
  then have upt: "[length h ..< length h + length (a # as)]
          = length h # [Suc (length h) ..< Suc (length h) + length as]"
    by (simp del: upt_Suc)
  have "cloneRows h (a # as)
          = (length h # [Suc (length h) ..< Suc (length h) + length as],
             ?h1 @ map (\<lambda>x. Cells (cellsAt h x)) as)"
    using rec unfolding len by (simp add: alloc_def del: upt_Suc)
  then show ?case unfolding upt by simp
qed

lemma cloneBoard_heap_exact:
  assumes look: "lookup h b = Some (Rows refs)" and valid: "\<forall>a \<in> set refs. a < length h"
  shows "cloneBoard_heap h b
           = (length h + length refs,
              h @ map (\<lambda>a. Cells (cellsAt h a)) refs @ [Rows [length h ..< length h + length refs]])"
  using cloneRows_exact[OF valid] look
  by (simp add: cloneBoard_heap_def alloc_def del: upt_Suc)

lemma cloneBoard_heap_ok:
  assumes look: "lookup h b = Some (Rows refs)" and valid: "\<forall>a \<in> set refs. a < length h"
    and cl: "cloneBoard_heap h b = (m, h1)"
  shows "\<exists>refs'. ok_board h1 m refs'" and "loadBoard h1 m = loadBoard h b"
proof -
  let ?refs' = "[length h ..< length h + length refs]"
  let ?copies = "map (\<lambda>a. Cells (cellsAt h a)) refs"
  from cl cloneBoard_heap_exact[OF look valid]
  have pair: "(m, h1) = (length h + length refs, h @ ?copies @ [Rows ?refs'])"
    by (simp only:)
  from pair have m: "m = length h + length refs" by blast
  from pair have h1: "h1 = h @ ?copies @ [Rows ?refs']" by blast
  have look1: "lookup h1 m = Some (Rows ?refs')"
    unfolding m h1 by (simp add: lookup_def nth_append)
  have copy: "\<And>i. i < length refs \<Longrightarrow> lookup h1 (length h + i) = Some (Cells (cellsAt h (refs ! i)))"
    unfolding h1 by (simp add: lookup_def nth_append)
  have rows: "\<forall>a \<in> set ?refs'. \<exists>cs. lookup h1 a = Some (Cells cs)"
  proof
    fix a assume "a \<in> set ?refs'"
    then obtain i where "a = length h + i" "i < length refs"
      by (auto simp: le_iff_add)
    with copy[of i] show "\<exists>cs. lookup h1 a = Some (Cells cs)" by simp
  qed
  from look1 rows have "ok_board h1 m ?refs'" by (simp add: ok_board_def)
  then show "\<exists>refs'. ok_board h1 m refs'" ..
  have "map (cellsAt h1) ?refs' = map (cellsAt h) refs"
  proof (rule nth_equalityI)
    show "length (map (cellsAt h1) ?refs') = length (map (cellsAt h) refs)" by simp
  next
    fix i assume "i < length (map (cellsAt h1) ?refs')"
    then have i: "i < length refs" by simp
    with copy[OF i] show "map (cellsAt h1) ?refs' ! i = map (cellsAt h) refs ! i"
      by (simp add: cellsAt_def)
  qed
  with look look1 show "loadBoard h1 m = loadBoard h b" by (simp add: loadBoard_def)
qed

lemma solve_heap_length: "length h \<le> length (snd (solve_heap depth h board))"
proof -
  obtain m h1 where cl: "cloneBoard_heap h board = (m, h1)"
    by (cases "cloneBoard_heap h board")
  from cloneBoard_heap_fresh[OF cl] obtain ext refs' where
    ext: "h1 = h @ ext" and look: "lookup h1 m = Some (Rows refs')" by blast
  from solveBacktrack_heap_frame(1)[OF look, of depth]
  have "length (snd (solveBacktrack_heap depth h1 m)) = length h1" by (simp add: frame_ok_def)
  moreover have "snd (solve_heap depth h board) = snd (solveBacktrack_heap depth h1 m)"
    using cl by (auto simp: solve_heap_def split: prod.splits option.splits bool.splits)
  ultimately show ?thesis using ext by simp
qed

lemma loadBoard_frame:
  assumes look: "lookup h b = Some (Rows refs)" and valid: "\<forall>a \<in> set refs. a < length h"
    and len: "length h \<le> length h'" and same: "\<forall>a < length h. h' ! a = h ! a"
  shows "loadBoard h' b = loadBoard h b"
proof -
  from look have b: "b < length h" by (simp add: lookup_def split: if_splits)
  with look len same have look': "lookup h' b = Some (Rows refs)"
    by (auto simp: lookup_def split: if_splits)
  have "\<And>a. a \<in> set refs \<Longrightarrow> cellsAt h' a = cellsAt h a"
    using valid len same by (auto simp: cellsAt_def lookup_def)
  then have "map (cellsAt h') refs = map (cellsAt h) refs" by simp
  with look look' show ?thesis by (simp add: loadBoard_def)
qed

lemma solve_heap_refines:
  assumes look: "lookup h b = Some (Rows refs)" and valid: "\<forall>a \<in> set refs. a < length h"
    and deep: "emptyCount (loadBoard h b) < depth"
  shows "\<exists>res. fst (solve_heap depth h b) = Some res
           \<and> map_option (loadBoard (snd (solve_heap depth h b))) res = solve (loadBoard h b)
           \<and> (case res of None \<Rightarrow> True | Some r \<Rightarrow> length h \<le> r)"
proof -
  obtain m h1 where cl: "cloneBoard_heap h b = (m, h1)"
    by (cases "cloneBoard_heap h b")
  from cloneBoard_heap_ok[OF look valid cl] obtain refs' where
    ok: "ok_board h1 m refs'" and load: "loadBoard h1 m = loadBoard h b" by blast
  from cl cloneBoard_heap_exact[OF look valid]
  have "(m, h1) = (length h + length refs,
          h @ map (\<lambda>a. Cells (cellsAt h a)) refs @ [Rows [length h ..< length h + length refs]])"
    by (simp only:)
  then have "m = length h + length refs" by blast
  then have fresh: "length h \<le> m" by simp
  obtain hres h2 where hr: "solveBacktrack_heap depth h1 m = (hres, h2)"
    by (cases "solveBacktrack_heap depth h1 m")
  obtain okb y where pr: "solveBacktrack (loadBoard h b) = (okb, y)"
    by (cases "solveBacktrack (loadBoard h b)")
  from solveBacktrack_heap_simulates(1)[OF ok load deep] hr pr
  have hres: "hres = Some okb" and load2: "loadBoard h2 m = y" by simp_all
  show ?thesis
  proof (cases okb)
    case True
    with cl hr hres have "solve_heap depth h b = (Some (Some m), h2)" by (simp add: solve_heap_def)
    moreover from pr True have "solve (loadBoard h b) = Some y" by (simp add: solve_def)
    ultimately show ?thesis using load2 fresh by simp
  next
    case False
    with cl hr hres have "solve_heap depth h b = (Some None, h2)" by (simp add: solve_heap_def)
    moreover from pr False have "solve (loadBoard h b) = None" by (simp add: solve_def)
    ultimately show ?thesis by simp
  qed
qed

section \<open>Claims about validation\<close>

text \<open>
  Claim C6. For a position \<open>(r, c)\<close> of the grid, \<open>isValidPlacement\<close> returns true for the
  value 0, and for any other value it returns false exactly when some other cell of the
  same row, column or block holds that value.
\<close>

theorem isValidPlacement_spec:
  assumes "r < GRID_SIZE" and "c < GRID_SIZE"
  shows "isValidPlacement board r c 0
       \<and> (v \<noteq> 0 \<longrightarrow>
            (\<not> isValidPlacement board r c v) =
            (\<exists>r' c'. r' < GRID_SIZE \<and> c' < GRID_SIZE \<and> (r' \<noteq> r \<or> c' \<noteq> c)
                 \<and> sameUnit r c r' c' \<and> cellAt board r' c' = Some v))"
proof
  show "isValidPlacement board r c 0" by (simp add: isValidPlacement_def)
next
  show "v \<noteq> 0 \<longrightarrow>
            (\<not> isValidPlacement board r c v) =
            (\<exists>r' c'. r' < GRID_SIZE \<and> c' < GRID_SIZE \<and> (r' \<noteq> r \<or> c' \<noteq> c)
                 \<and> sameUnit r c r' c' \<and> cellAt board r' c' = Some v)"
  proof
    assume "v \<noteq> 0"
    from isValidPlacement_iff[OF assms this, of board] show
      "(\<not> isValidPlacement board r c v) =
            (\<exists>r' c'. r' < GRID_SIZE \<and> c' < GRID_SIZE \<and> (r' \<noteq> r \<or> c' \<noteq> c)
                 \<and> sameUnit r c r' c' \<and> cellAt board r' c' = Some v)"
      by blast
  qed
qed

theorem isValidPlacement_spec_witness:
  "(0::nat) < GRID_SIZE \<and> (2::nat) < GRID_SIZE \<and> (5::nat) \<noteq> 0
     \<and> isValidPlacement rowFiveBoard 0 2 0
     \<and> \<not> isValidPlacement rowFiveBoard 0 2 5
     \<and> (\<exists>r' c'. r' < GRID_SIZE \<and> c' < GRID_SIZE \<and> (r' \<noteq> 0 \<or> c' \<noteq> 2)
                 \<and> sameUnit 0 2 r' c' \<and> cellAt rowFiveBoard r' c' = Some 5)"
proof -
  have r: "(0::nat) < GRID_SIZE" and c: "(2::nat) < GRID_SIZE" and v: "(5::nat) \<noteq> 0"
    by (simp_all add: GRID_SIZE_def)
  have bad: "\<not> isValidPlacement rowFiveBoard 0 2 5" by code_simp
  from isValidPlacement_spec[OF r c, of rowFiveBoard 5] r c v bad show ?thesis by blast
qed

text \<open>
  Claim C9. On a board of the documented shape, \<open>getConflicts\<close> returns, each once, exactly
  the positions of the non-zero cells that are not a valid placement on the board as it
  stands (an empty cell is never reported); two 7s in one row are both reported; the
  all-zero board has no conflicts.
\<close>

theorem getConflicts_spec:
  assumes "wf_board board"
  shows "set (getConflicts board) =
     {p. row p < GRID_SIZE \<and> col p < GRID_SIZE \<and>
         (\<exists>v. cellAt board (row p) (col p) = Some v \<and> v \<noteq> 0
              \<and> \<not> isValidPlacement board (row p) (col p) v)}
   \<and> distinct (getConflicts board)
   \<and> (\<forall>r c1 c2. r < GRID_SIZE \<and> c1 < GRID_SIZE \<and> c2 < GRID_SIZE \<and> c1 \<noteq> c2
         \<and> cellAt board r c1 = Some 7 \<and> cellAt board r c2 = Some 7
         \<longrightarrow> \<lparr>row = r, col = c1\<rparr> \<in> set (getConflicts board)
           \<and> \<lparr>row = r, col = c2\<rparr> \<in> set (getConflicts board))
   \<and> getConflicts createEmptyBoard = []"
proof (intro conjI)
  show "set (getConflicts board) =
     {p. row p < GRID_SIZE \<and> col p < GRID_SIZE \<and>
         (\<exists>v. cellAt board (row p) (col p) = Some v \<and> v \<noteq> 0
              \<and> \<not> isValidPlacement board (row p) (col p) v)}"
    using getConflicts_iff_wf[OF assms] by blast
next
  show "distinct (getConflicts board)"
    unfolding getConflicts_def using distinct_allPositions by (rule distinct_filter)
next
  show "\<forall>r c1 c2. r < GRID_SIZE \<and> c1 < GRID_SIZE \<and> c2 < GRID_SIZE \<and> c1 \<noteq> c2
         \<and> cellAt board r c1 = Some 7 \<and> cellAt board r c2 = Some 7
         \<longrightarrow> \<lparr>row = r, col = c1\<rparr> \<in> set (getConflicts board)
           \<and> \<lparr>row = r, col = c2\<rparr> \<in> set (getConflicts board)"
  proof (intro allI impI, elim conjE)
    fix r c1 c2 :: nat
    assume r: "r < GRID_SIZE" and c1: "c1 < GRID_SIZE" and c2: "c2 < GRID_SIZE"
      and ne: "c1 \<noteq> c2"
      and v1: "cellAt board r c1 = Some 7" and v2: "cellAt board r c2 = Some 7"
    have seven: "(7::nat) \<noteq> 0" by simp
    have "\<not> isValidPlacement board r c1 7"
      unfolding isValidPlacement_iff[OF r c1 seven]
      using r c2 ne v2 by (auto simp: sameUnit_def)
    moreover have "\<not> isValidPlacement board r c2 7"
      unfolding isValidPlacement_iff[OF r c2 seven]
      using r c1 ne v1 by (auto simp: sameUnit_def)
    ultimately show "\<lparr>row = r, col = c1\<rparr> \<in> set (getConflicts board)
           \<and> \<lparr>row = r, col = c2\<rparr> \<in> set (getConflicts board)"
      unfolding getConflicts_iff_wf[OF assms] using r c1 c2 v1 v2 by simp
  qed
next
  show "getConflicts createEmptyBoard = []" by code_simp
qed

theorem getConflicts_spec_witness:
  "wf_board twoSevensBoard
     \<and> (0::nat) < GRID_SIZE \<and> (3::nat) < GRID_SIZE \<and> (0::nat) \<noteq> 3
     \<and> cellAt twoSevensBoard 0 0 = Some 7 \<and> cellAt twoSevensBoard 0 3 = Some 7
     \<and> \<lparr>row = 0, col = 0\<rparr> \<in> set (getConflicts twoSevensBoard)
     \<and> \<lparr>row = 0, col = 3\<rparr> \<in> set (getConflicts twoSevensBoard)"
proof -
  have wf: "wf_board twoSevensBoard" by code_simp
  have h: "(0::nat) < GRID_SIZE \<and> (0::nat) < GRID_SIZE \<and> (3::nat) < GRID_SIZE \<and> (0::nat) \<noteq> 3
     \<and> cellAt twoSevensBoard 0 0 = Some 7 \<and> cellAt twoSevensBoard 0 3 = Some 7"
    by code_simp
  from getConflicts_spec[OF wf]
  have "\<forall>r c1 c2. r < GRID_SIZE \<and> c1 < GRID_SIZE \<and> c2 < GRID_SIZE \<and> c1 \<noteq> c2
         \<and> cellAt twoSevensBoard r c1 = Some 7 \<and> cellAt twoSevensBoard r c2 = Some 7
         \<longrightarrow> \<lparr>row = r, col = c1\<rparr> \<in> set (getConflicts twoSevensBoard)
           \<and> \<lparr>row = r, col = c2\<rparr> \<in> set (getConflicts twoSevensBoard)"
    by blast
  with h wf show ?thesis by blast
qed

text \<open>
  Claim C10. \<open>getConflicts\<close> never returns exactly one position: every reported position
  has a different reported position in the same row, column or block holding the same
  non-zero value.
\<close>

theorem getConflicts_never_single:
  "length (getConflicts board) \<noteq> 1
   \<and> (\<forall>p \<in> set (getConflicts board).
        \<exists>q \<in> set (getConflicts board). q \<noteq> p
            \<and> sameUnit (row p) (col p) (row q) (col q)
            \<and> cellAt board (row q) (col q) = cellAt board (row p) (col p)
            \<and> cellAt board (row p) (col p) \<noteq> Some 0)"
proof
  show "length (getConflicts board) \<noteq> 1"
  proof
    assume "length (getConflicts board) = 1"
    then obtain p where p: "getConflicts board = [p]"
      by (cases "getConflicts board") auto
    then have "p \<in> set (getConflicts board)" by simp
    from conflict_has_partner[OF this] p show False by auto
  qed
next
  show "\<forall>p \<in> set (getConflicts board).
        \<exists>q \<in> set (getConflicts board). q \<noteq> p
            \<and> sameUnit (row p) (col p) (row q) (col q)
            \<and> cellAt board (row q) (col q) = cellAt board (row p) (col p)
            \<and> cellAt board (row p) (col p) \<noteq> Some 0"
    using conflict_has_partner by blast
qed


theorem getConflicts_never_single_witness:
  "\<lparr>row = 0, col = 0\<rparr> \<in> set (getConflicts twoSevensBoard)
   \<and> (\<exists>q \<in> set (getConflicts twoSevensBoard). q \<noteq> \<lparr>row = 0, col = 0\<rparr>
            \<and> sameUnit 0 0 (row q) (col q)
            \<and> cellAt twoSevensBoard (row q) (col q) = cellAt twoSevensBoard 0 0
            \<and> cellAt twoSevensBoard 0 0 \<noteq> Some 0)"
proof -
  have h: "\<lparr>row = 0, col = 0\<rparr> \<in> set (getConflicts twoSevensBoard)" by code_simp
  from getConflicts_never_single[of twoSevensBoard] h show ?thesis by force
qed


text \<open>
  Claim C7. \<open>isValidBoardShape\<close> tests each cell with \<open>typeof cell === 'number'\<close> and the
  two comparisons, and never that the number is an integer: it returns true on the 9 by 9
  array whose first cell is 0.5, which is the encoding of no board.
\<close>

theorem isValidBoardShape_accepts_fraction:
  "isValidBoardShape fractionCandidate \<and> (\<nexists>b. encodeBoard b = fractionCandidate)"
proof
  show "isValidBoardShape fractionCandidate"
    by (simp add: fractionCandidate_def zeroRow_def GRID_SIZE_def)
next
  show "\<nexists>b. encodeBoard b = fractionCandidate"
  proof
    assume "\<exists>b. encodeBoard b = fractionCandidate"
    then obtain b where "encodeBoard b = fractionCandidate" by blast
    then obtain cells rest where
      "JArray (map (\<lambda>v. JNumber (of_nat v)) cells)
         = JArray [JNumber (1 / 2), JNumber 0, JNumber 0, JNumber 0, JNumber 0,
                     JNumber 0, JNumber 0, JNumber 0, JNumber 0]"
      by (auto simp: encodeBoard_def fractionCandidate_def map_eq_Cons_conv)
    then obtain v where "JNumber (rat_of_nat v) = JNumber (1 / 2)"
      by (auto simp: map_eq_Cons_conv)
    with half_not_nat[of v] show False by simp
  qed
qed

section \<open>Claims about the solver and the solution counter\<close>

text \<open>
  Claim C3. \<open>solve\<close> is to return a solved grid that completes the input, or null, and
  null exactly when the input has no valid completion. The code does not do so on a board
  whose filled cells already conflict: on the full board with two 5s in its first row it
  finds no empty cell and returns the board as it is, a grid that is not solved, although
  the board has no valid completion.
\<close>

theorem solve_returns_unsolved_board:
  "wf_board conflictingFullBoard
    \<and> solve conflictingFullBoard = Some conflictingFullBoard
    \<and> \<not> isBoardComplete conflictingFullBoard
    \<and> \<not> solved_board conflictingFullBoard
    \<and> completions conflictingFullBoard = {}"
proof -
  have "solve conflictingFullBoard = Some conflictingFullBoard" by code_simp
  moreover have "\<not> solved_board conflictingFullBoard"
    using conflicting_facts(1,3) by (simp add: isBoardComplete_iff)
  ultimately show ?thesis using conflicting_facts conflicting_no_completion by blast
qed

text \<open>
  Claim C4. \<open>countSolutions\<close> is to return the number of valid completions of the board or
  the limit, whichever is smaller. The code does not do so on a board whose filled cells
  already conflict: the same full board has no valid completion, and the counter returns
  1, so that \<open>hasUniqueSolution\<close> is true of a board with no solution.
\<close>

theorem countSolutions_counts_unsolved_board:
  "countSolutions conflictingFullBoard 2 = 1
    \<and> hasUniqueSolution conflictingFullBoard
    \<and> completions conflictingFullBoard = {}
    \<and> min (int (card (completions conflictingFullBoard))) 2 = 0"
proof -
  have one: "countSolutions conflictingFullBoard 2 = 1" by code_simp
  then have "hasUniqueSolution conflictingFullBoard" by (simp add: hasUniqueSolution_def)
  with one show ?thesis by (simp add: conflicting_no_completion)
qed

section \<open>Claims about the generator\<close>

text \<open>
  Claim C1. Whatever numbers are drawn and for every difficulty (so also when the 81
  positions run out before the target of 26 givens is reached), the puzzle that
  \<open>generatePuzzle\<close> returns has a unique solution: \<open>hasUniqueSolution\<close> is true of it, and its
  only valid completion is the paired solution.
\<close>

theorem generatePuzzle_unique:
  "hasUniqueSolution (puzzle (snd (generatePuzzle g d)))
   \<and> completions (puzzle (snd (generatePuzzle g d))) = {solution (snd (generatePuzzle g d))}"
proof -
  note f = generatePuzzle_facts[OF refl, of g d]
  from f(4) have "hasUniqueSolution (puzzle (snd (generatePuzzle g d)))"
    by (simp add: hasUniqueSolution_def)
  moreover from unique_completion[OF f(2,3,1,4)]
  have "completions (puzzle (snd (generatePuzzle g d))) = {solution (snd (generatePuzzle g d))}" .
  ultimately show ?thesis by simp
qed

theorem generatePuzzle_unique_witness:
  "hasUniqueSolution (puzzle (snd (generatePuzzle zeroSource Hard)))
   \<and> completions (puzzle (snd (generatePuzzle zeroSource Hard)))
       = {solution (snd (generatePuzzle zeroSource Hard))}"
  by (rule generatePuzzle_unique)

text \<open>
  Claim C2. For every difficulty, \<open>solve\<close> on the generated puzzle succeeds and returns the
  paired solution.
\<close>

theorem generatePuzzle_solve:
  "solve (puzzle (snd (generatePuzzle g d))) = Some (solution (snd (generatePuzzle g d)))"
proof -
  note f = generatePuzzle_facts[OF refl, of g d]
  have valid: "valid_board (puzzle (snd (generatePuzzle g d)))"
    using f(2,3,1) by (rule sub_board_valid)
  from solve_correct[OF f(2) valid] unique_completion[OF f(2,3,1,4)]
  show ?thesis by (auto split: option.splits)
qed

theorem generatePuzzle_solve_witness:
  "solve (puzzle (snd (generatePuzzle zeroSource Medium)))
     = Some (solution (snd (generatePuzzle zeroSource Medium)))"
  by (rule generatePuzzle_solve)

text \<open>
  Claim C5. The solution of every generated pair is a solved board: \<open>isBoardComplete\<close> is
  true of it and \<open>getConflicts\<close> returns the empty list; the backtracking fill of the empty
  grid always succeeds, and leaves such a board.
\<close>

theorem generatePuzzle_solution_solved:
  "isBoardComplete (solution (snd (generatePuzzle g d)))
   \<and> getConflicts (solution (snd (generatePuzzle g d))) = []
   \<and> fst (fillCompleteGrid g createEmptyBoard)
   \<and> isBoardComplete (snd (snd (fillCompleteGrid g createEmptyBoard)))
   \<and> getConflicts (snd (snd (fillCompleteGrid g createEmptyBoard))) = []"
proof -
  note f = generatePuzzle_facts(1)[OF refl, of g d]
  then have wf: "wf_board (solution (snd (generatePuzzle g d)))"
    by (simp add: solved_board_def)
  from f wf have a: "isBoardComplete (solution (snd (generatePuzzle g d)))"
    by (simp add: isBoardComplete_iff)
  from f wf have b: "getConflicts (solution (snd (generatePuzzle g d))) = []"
    by (simp add: getConflicts_Nil_iff solved_board_def)
  note e = fill_empty_succeeds[of g]
  then have wf2: "wf_board (snd (snd (fillCompleteGrid g createEmptyBoard)))"
    by (simp add: solved_board_def)
  from e wf2 have c: "isBoardComplete (snd (snd (fillCompleteGrid g createEmptyBoard)))"
    by (simp add: isBoardComplete_iff)
  from e wf2 have d: "getConflicts (snd (snd (fillCompleteGrid g createEmptyBoard))) = []"
    by (simp add: getConflicts_Nil_iff solved_board_def)
  from a b c d e show ?thesis by simp
qed

theorem generatePuzzle_solution_solved_witness:
  "isBoardComplete (solution (snd (generatePuzzle zeroSource Easy)))
   \<and> getConflicts (solution (snd (generatePuzzle zeroSource Easy))) = []
   \<and> fst (fillCompleteGrid zeroSource createEmptyBoard)
   \<and> isBoardComplete (snd (snd (fillCompleteGrid zeroSource createEmptyBoard)))
   \<and> getConflicts (snd (snd (fillCompleteGrid zeroSource createEmptyBoard))) = []"
  by (rule generatePuzzle_solution_solved)

section \<open>Claim about the caller's board\<close>

text \<open>
  Claim C8. \<open>solve\<close> leaves the board of its caller unchanged: for a board whose rows are
  arrays of the heap, every object that existed before the call is the same after it, at any
  stack depth, and so the caller reads the same board. Given stack for the at most 81 nested
  calls, the call returns, and what it returns is null or a reference to a new object
  holding the board that the state-passing \<open>solve\<close> returns.
\<close>

theorem solve_leaves_board_unchanged:
  assumes "lookup h board = Some (Rows refs)" and "\<forall>a \<in> set refs. a < length h"
  shows "(\<forall>a < length h. snd (solve_heap depth h board) ! a = h ! a)
       \<and> loadBoard (snd (solve_heap depth h board)) board = loadBoard h board
       \<and> (emptyCount (loadBoard h board) < depth \<longrightarrow>
            (\<exists>res. fst (solve_heap depth h board) = Some res
               \<and> map_option (loadBoard (snd (solve_heap depth h board))) res
                    = solve (loadBoard h board)
               \<and> (case res of None \<Rightarrow> True | Some r \<Rightarrow> length h \<le> r)))"
proof (intro conjI)
  show frame: "\<forall>a < length h. snd (solve_heap depth h board) ! a = h ! a"
    using solve_heap_frame by blast
  show "loadBoard (snd (solve_heap depth h board)) board = loadBoard h board"
    using assms solve_heap_length frame by (rule loadBoard_frame)
  show "emptyCount (loadBoard h board) < depth \<longrightarrow>
            (\<exists>res. fst (solve_heap depth h board) = Some res
               \<and> map_option (loadBoard (snd (solve_heap depth h board))) res
                    = solve (loadBoard h board)
               \<and> (case res of None \<Rightarrow> True | Some r \<Rightarrow> length h \<le> r))"
    using solve_heap_refines[OF assms] by blast
qed


theorem solve_leaves_board_unchanged_witness:
  "lookup classicHeap 9 = Some (Rows [0, 1, 2, 3, 4, 5, 6, 7, 8])
   \<and> loadBoard classicHeap 9 = classicPuzzle
   \<and> emptyCount (loadBoard classicHeap 9) < 82
   \<and> snd (solve_heap 82 classicHeap 9) ! 0 = classicHeap ! 0
   \<and> loadBoard (snd (solve_heap 82 classicHeap 9)) 9 = loadBoard classicHeap 9
   \<and> (\<exists>res. fst (solve_heap 82 classicHeap 9) = Some res
          \<and> map_option (loadBoard (snd (solve_heap 82 classicHeap 9))) res
               = solve (loadBoard classicHeap 9))"
proof -
  have look: "lookup classicHeap 9 = Some (Rows [0, 1, 2, 3, 4, 5, 6, 7, 8])" by code_simp
  have valid: "\<forall>a \<in> set [0, 1, 2, 3, 4, 5, 6, 7, 8 :: nat]. a < length classicHeap" by code_simp
  have load: "loadBoard classicHeap 9 = classicPuzzle" by code_simp
  have deep: "emptyCount (loadBoard classicHeap 9) < 82" by code_simp
  have zero: "(0::nat) < length classicHeap" by code_simp
  from solve_leaves_board_unchanged[OF look valid, of 82] look load deep zero
  show ?thesis by blast
qed

end
